theory Spec2Isabelle
  imports Complex_Main
begin

section \<open>Farthest-point clustering for the Fast Gauss Transform (clustering.cpp)\<close>

text \<open>
  A shallow embedding of \<^verbatim>\<open>src/clustering.cpp\<close>.

  Conventions of the embedding.
  \<^item> A \<^verbatim>\<open>double\<close> is a \<^typ>\<open>real\<close>: rounding, overflow and infinities are not
    modelled. Which of two squared distances is the larger decides which point the pass
    chooses; statements that depend on it are made for the point sets of \<open>exact_input\<close>,
    on which the code computes its squared distances without rounding. The one place where the code can produce a value that is no real number on
    inputs it accepts is the final division of the coordinate sums by the per-cluster
    counts; there a row divided by a zero count (a row of NaN) is the value \<open>None\<close>.
  \<^item> An \<^verbatim>\<open>arma::uword\<close> index is a \<^typ>\<open>nat\<close>; the two places where the code
    relies on unsigned wrap-around (\<^verbatim>\<open>N - 1\<close> for \<^verbatim>\<open>N = 0\<close>, \<^verbatim>\<open>i - 1\<close> for
    \<^verbatim>\<open>i = 0\<close>) are written out.
  \<^item> An \<^verbatim>\<open>arma::mat\<close> is the list of its rows, an \<^verbatim>\<open>arma::vec\<close> or
    \<^verbatim>\<open>arma::uvec\<close> a list. Element access is bounds checked as Armadillo does by
    default: an access out of range throws, which is the value \<open>Inl IndexOutOfBounds\<close>.
    The exception leaves the constructor, so no partly built object is observable.
  \<^item> The vectors the constructor allocates without initialising are filled with zeros here;
    the code writes every entry before it reads it.
  \<^item> The inner \<^verbatim>\<open>while\<close> loop walks a linked list and has no bound of its own, so it
    is a partial function: not returning is the value \<open>None\<close>.
\<close>

subsection \<open>Matrices, errors and what the headers provide\<close>

type_synonym rowvec = "real list"
type_synonym mat = "real list list"

definition n_rows :: "mat \<Rightarrow> nat" where
  "n_rows m = length m"

definition n_cols :: "mat \<Rightarrow> nat" where
  "n_cols m = (case m of [] \<Rightarrow> 0 | r # _ \<Rightarrow> length r)"

text \<open>Every row of a matrix has \<open>n_cols\<close> entries: the type \<^verbatim>\<open>arma::mat\<close> admits
  nothing else.\<close>

definition is_mat :: "mat \<Rightarrow> bool" where
  "is_mat m = list_all (\<lambda>r. length r = n_cols m) m"

datatype error = IndexOutOfBounds | AllocationFailure | DivisionByZero | IncompatibleDimensions

type_synonym 'a result = "(error + 'a) option"

text \<open>
  The collaborators declared in headers that are not part of the sources at hand
  (\<^verbatim>\<open>clustering.hpp\<close>, \<^verbatim>\<open>constant_series.hpp\<close>, \<^verbatim>\<open>monomials.hpp\<close>,
  \<^verbatim>\<open>p_max_total.hpp\<close>) are parameters of the model: the constant
  \<^verbatim>\<open>TruncationNumberUpperLimit\<close> and the three functions that evaluate monomials, the
  constant series and the number of monomials.
\<close>

record externals =
  TruncationNumberUpperLimit :: nat
  compute_constant_series :: "nat \<Rightarrow> nat \<Rightarrow> real list"
  compute_monomials :: "real list \<Rightarrow> nat \<Rightarrow> real list"
  get_p_max_total :: "nat \<Rightarrow> nat \<Rightarrow> nat"

subsection \<open>The squared distance\<close>

text \<open>\<^verbatim>\<open>ddist(x, y) = arma::accu(arma::pow(x - y, 2))\<close>\<close>

definition ddist :: "rowvec \<Rightarrow> rowvec \<Rightarrow> real" where
  "ddist x y = sum_list (map2 (\<lambda>a b. (a - b)\<^sup>2) x y)"

subsection \<open>The truncation number\<close>

text \<open>
  The \<^verbatim>\<open>while\<close> loop of \<^verbatim>\<open>choose_truncation_number\<close>. The counter \<open>p\<close> is a C
  \<^verbatim>\<open>int\<close> that never exceeds the upper limit by more than one, so it is a \<^typ>\<open>nat\<close>.
\<close>

function truncation_loop ::
  "nat \<Rightarrow> real \<Rightarrow> real \<Rightarrow> real \<Rightarrow> real \<Rightarrow> real \<Rightarrow> real \<Rightarrow> real \<Rightarrow> nat \<Rightarrow> nat" where
  "truncation_loop L epsilon rx r rx2 h2 err temp p =
     (if err > epsilon \<and> p \<le> L then
        (let p' = p + 1;
             b = min ((rx + sqrt (rx2 + 2 * real p' * h2)) / 2) (rx + r);
             c = rx - b;
             temp' = temp * (2 * rx * b / h2 / real p');
             err' = temp' * exp (- c * c / h2)
         in truncation_loop L epsilon rx r rx2 h2 err' temp' p')
      else p)"
  by pat_completeness auto
termination
  by (relation "measure (\<lambda>(L, epsilon, rx, r, rx2, h2, err, temp, p). L + 1 - p)") auto

declare truncation_loop.simps [simp del]

definition choose_truncation_number :: "nat \<Rightarrow> nat \<Rightarrow> real \<Rightarrow> real \<Rightarrow> real \<Rightarrow> nat" where
  "choose_truncation_number L dimensions bandwidth epsilon rx =
     (let r = min (sqrt (real dimensions)) (bandwidth * sqrt (ln (1 / epsilon)));
          rx2 = rx * rx;
          h2 = bandwidth * bandwidth
      in truncation_loop L epsilon rx r rx2 h2 1 1 0)"

subsection \<open>The cluster model\<close>

record clustering =
  m_source :: mat
  m_indices :: "nat list"
  m_centers :: "rowvec option list"
  m_num_points :: "nat list"
  m_radii :: "real list"
  m_rx :: real
  m_bandwidth :: real
  m_epsilon :: real
  m_p_max :: nat
  m_constant_series :: "real list"

text \<open>
  The constructor of the base class. \<open>K\<close> is a C \<^verbatim>\<open>int\<close>; a negative \<open>K\<close> is
  converted to a huge unsigned size, and the allocation of the vectors of that size
  throws. The radius estimate \<^verbatim>\<open>m_rx\<close> is value-initialised (zero) when the truncation
  number is chosen.
\<close>

definition Clustering :: "externals \<Rightarrow> mat \<Rightarrow> int \<Rightarrow> real \<Rightarrow> real \<Rightarrow> error + clustering" where
  "Clustering ext source K bandwidth epsilon =
     (if K < 0 then Inl AllocationFailure
      else
        (let rx0 = 0;
             p = choose_truncation_number (TruncationNumberUpperLimit ext)
                   (n_cols source) bandwidth epsilon rx0
         in Inr \<lparr> m_source = source,
                  m_indices = replicate (n_rows source) 0,
                  m_centers = replicate (nat K) (Some (replicate (n_cols source) 0)),
                  m_num_points = replicate (nat K) 0,
                  m_radii = replicate (nat K) 0,
                  m_rx = rx0,
                  m_bandwidth = bandwidth,
                  m_epsilon = epsilon,
                  m_p_max = p,
                  m_constant_series = compute_constant_series ext (n_cols source) p \<rparr>))"

subsection \<open>The clustering pass: its state\<close>

text \<open>
  The object under construction together with the local vectors of the constructor of
  \<^verbatim>\<open>GonzalezClustering\<close>. The local \<^verbatim>\<open>dist\<close> is the field \<open>dist_arr\<close>.
\<close>

record gonzalez = clustering +
  centers :: "nat list"
  cprev :: "nat list"
  cnext :: "nat list"
  far2c :: "nat list"
  dist_arr :: "real list"

definition allocate :: "clustering \<Rightarrow> nat \<Rightarrow> nat \<Rightarrow> gonzalez" where
  "allocate c K N =
     \<lparr> m_source = m_source c, m_indices = m_indices c, m_centers = m_centers c,
       m_num_points = m_num_points c, m_radii = m_radii c, m_rx = m_rx c,
       m_bandwidth = m_bandwidth c, m_epsilon = m_epsilon c, m_p_max = m_p_max c,
       m_constant_series = m_constant_series c,
       centers = replicate K 0, cprev = replicate N 0, cnext = replicate N 0,
       far2c = replicate K 0, dist_arr = replicate N 0 \<rparr>"

text \<open>\<^verbatim>\<open>std::max_element\<close>: the index of the first largest element.\<close>

definition max_element :: "real list \<Rightarrow> nat" where
  "max_element xs =
     fold (\<lambda>i largest. if xs ! largest < xs ! i then i else largest) [1..<length xs] 0"

text \<open>
  Modelled from the spec: \<^verbatim>\<open>get_radius_idxmax(i)\<close> is declared in \<^verbatim>\<open>clustering.hpp\<close>;
  the spec calls its result "the cluster with currently maximal radius" among the first
  \<open>i\<close> clusters. Of several clusters of maximal radius the first is taken.
\<close>

definition get_radius_idxmax :: "nat \<Rightarrow> 'a clustering_scheme \<Rightarrow> nat" where
  "get_radius_idxmax i s = max_element (take i (m_radii s))"

text \<open>
  Modelled from the spec: \<^verbatim>\<open>get_max_radius()\<close> is declared in \<^verbatim>\<open>clustering.hpp\<close>;
  the spec calls it "the maximum radius across all clusters".
\<close>

definition get_max_radius :: "'a clustering_scheme \<Rightarrow> real" where
  "get_max_radius s = fold max (tl (m_radii s)) (hd (m_radii s))"

subsection \<open>Initialisation\<close>

text \<open>
  \<^verbatim>\<open>i - 1\<close> on the unsigned type \<^verbatim>\<open>arma::uword\<close> (64 bits): zero wraps around.
\<close>

definition uword_pred :: "nat \<Rightarrow> nat" where
  "uword_pred i = (if i = 0 then 2 ^ 64 - 1 else i - 1)"

text \<open>
  The first loop of the constructor (lines 110 to 114). \<^verbatim>\<open>cprev(0) = 0 - 1\<close> wraps
  around; the value is overwritten right after the loop.
\<close>

fun init_loop :: "mat \<Rightarrow> nat \<Rightarrow> nat list \<Rightarrow> gonzalez \<Rightarrow> error + gonzalez" where
  "init_loop source nc [] s = Inr s"
| "init_loop source nc (i # is) s =
     (if i \<noteq> nc \<and> \<not> (i < length source \<and> nc < length source) then Inl IndexOutOfBounds
      else if \<not> (i < length (dist_arr s) \<and> i < length (cnext s) \<and> i < length (cprev s))
      then Inl IndexOutOfBounds
      else init_loop source nc is
        (s\<lparr> dist_arr := (dist_arr s)[i := (if i = nc then 0 else ddist (source ! i) (source ! nc))],
            cnext := (cnext s)[i := i + 1],
            cprev := (cprev s)[i := uword_pred i] \<rparr>))"

text \<open>Lines 108 to 121: the first centre, the ring of all points, the farthest point.\<close>

definition initialise :: "mat \<Rightarrow> nat \<Rightarrow> gonzalez \<Rightarrow> error + gonzalez" where
  "initialise source nc s =
     (let N = n_rows source in
      if \<not> 0 < length (centers s) then Inl IndexOutOfBounds
      else
        (case init_loop source nc [0..<N] (s\<lparr> centers := (centers s)[0 := nc] \<rparr>) of
           Inl e \<Rightarrow> Inl e
         | Inr s1 \<Rightarrow>
             if N = 0 \<or> \<not> (N - 1 < length (cnext s1) \<and> 0 < length (cprev s1))
             then Inl IndexOutOfBounds
             else
               (let s2 = s1\<lparr> cnext := (cnext s1)[N - 1 := 0], cprev := (cprev s1)[0 := N - 1] \<rparr>;
                    nc' = max_element (dist_arr s2)
                in if \<not> (0 < length (far2c s2) \<and> nc' < length (dist_arr s2)
                          \<and> 0 < length (m_radii s2))
                   then Inl IndexOutOfBounds
                   else Inr (s2\<lparr> far2c := (far2c s2)[0 := nc'],
                                 m_radii := (m_radii s2)[0 := dist_arr s2 ! nc'] \<rparr>))))"

subsection \<open>One step of the walk over a cluster's members\<close>

text \<open>
  The body of the \<^verbatim>\<open>while\<close> loop (lines 145 to 170) for the member \<open>k\<close> of cluster
  \<open>j\<close>, while cluster \<open>i\<close> with centre \<open>nc\<close> is being built. It returns the next
  member and the new state. The guard of the branch that moves \<open>k\<close> to cluster \<open>i\<close> is
  the conjunction of the range checks of its accesses, each in the state in which the
  access happens.
\<close>

definition keep_member :: "nat \<Rightarrow> nat \<Rightarrow> real \<Rightarrow> gonzalez \<Rightarrow> error + gonzalez" where
  "keep_member j k dist2c_k s =
     (if \<not> j < length (m_radii s) then Inl IndexOutOfBounds
      else if m_radii s ! j < dist2c_k then
        (if \<not> j < length (far2c s) then Inl IndexOutOfBounds
         else Inr (s\<lparr> m_radii := (m_radii s)[j := dist2c_k], far2c := (far2c s)[j := k] \<rparr>))
      else Inr s)"

definition move_member :: "nat \<Rightarrow> nat \<Rightarrow> nat \<Rightarrow> nat \<Rightarrow> real \<Rightarrow> gonzalez \<Rightarrow> error + gonzalez" where
  "move_member i nc k nextk dd s =
     (let s1 = s\<lparr> dist_arr := (dist_arr s)[k := dd], m_indices := (m_indices s)[k := i] \<rparr>;
          s2 = (if m_radii s1 ! i < dd
                then s1\<lparr> m_radii := (m_radii s1)[i := dd], far2c := (far2c s1)[i := k] \<rparr>
                else s1);
          s3 = s2\<lparr> cnext := (cnext s2)[cprev s2 ! k := nextk] \<rparr>;
          s4 = s3\<lparr> cprev := (cprev s3)[nextk := cprev s3 ! k] \<rparr>;
          s5 = s4\<lparr> cnext := (cnext s4)[k := cnext s4 ! nc] \<rparr>;
          s6 = s5\<lparr> cprev := (cprev s5)[cnext s5 ! nc := k] \<rparr>;
          s7 = s6\<lparr> cnext := (cnext s6)[nc := k] \<rparr>;
          s8 = s7\<lparr> cprev := (cprev s7)[k := nc] \<rparr>
      in if k < length (dist_arr s) \<and> k < length (m_indices s) \<and> i < length (m_radii s1)
            \<and> (m_radii s1 ! i < dd \<longrightarrow> i < length (far2c s1))
            \<and> k < length (cprev s2) \<and> cprev s2 ! k < length (cnext s2)
            \<and> nextk < length (cprev s3)
            \<and> nc < length (cnext s4) \<and> k < length (cnext s4)
            \<and> cnext s5 ! nc < length (cprev s5)
         then Inr s8 else Inl IndexOutOfBounds)"

definition scan_body ::
  "mat \<Rightarrow> nat \<Rightarrow> nat \<Rightarrow> nat \<Rightarrow> real \<Rightarrow> nat \<Rightarrow> gonzalez \<Rightarrow> error + (nat \<times> gonzalez)" where
  "scan_body source i j nc dc2cq k s =
     (if \<not> (k < length (cnext s) \<and> k < length (dist_arr s)) then Inl IndexOutOfBounds
      else
        (let nextk = cnext s ! k;
             dist2c_k = dist_arr s ! k
         in if dc2cq < dist2c_k then
              (if \<not> (k < length source \<and> nc < length source) then Inl IndexOutOfBounds
               else
                 (let dd = ddist (source ! k) (source ! nc)
                  in if dd < dist2c_k
                     then map_sum id (Pair nextk) (move_member i nc k nextk dd s)
                     else map_sum id (Pair nextk) (keep_member j k dist2c_k s)))
            else map_sum id (Pair nextk) (keep_member j k dist2c_k s)))"

text \<open>The \<^verbatim>\<open>while (k != ct_j)\<close> loop.\<close>

partial_function (option) scan ::
  "mat \<Rightarrow> nat \<Rightarrow> nat \<Rightarrow> nat \<Rightarrow> real \<Rightarrow> nat \<Rightarrow> nat \<Rightarrow> gonzalez \<Rightarrow> gonzalez result" where
  "scan source i j nc dc2cq ct_j k s =
     (if k = ct_j then Some (Inr s)
      else
        (case scan_body source i j nc dc2cq k s of
           Inl e \<Rightarrow> Some (Inl e)
         | Inr (nextk, s') \<Rightarrow> scan source i j nc dc2cq ct_j nextk s'))"

declare scan.simps [code]

subsection \<open>The loops over the clusters\<close>

text \<open>The body of the loop over the older clusters \<open>j < i\<close> (lines 138 to 172).\<close>

definition prune_cluster :: "mat \<Rightarrow> nat \<Rightarrow> nat \<Rightarrow> nat \<Rightarrow> gonzalez \<Rightarrow> gonzalez result" where
  "prune_cluster source i nc j s =
     (if \<not> j < length (centers s) then Some (Inl IndexOutOfBounds)
      else
        (let ct_j = centers s ! j
         in if \<not> (ct_j < length source \<and> nc < length source \<and> j < length (m_radii s))
            then Some (Inl IndexOutOfBounds)
            else
              (let dc2cq = ddist (source ! ct_j) (source ! nc) / 4
               in if dc2cq < m_radii s ! j then
                    (if \<not> (j < length (far2c s) \<and> ct_j < length (cnext s))
                     then Some (Inl IndexOutOfBounds)
                     else scan source i j nc dc2cq ct_j (cnext s ! ct_j)
                            (s\<lparr> m_radii := (m_radii s)[j := 0],
                                far2c := (far2c s)[j := ct_j] \<rparr>))
                  else Some (Inr s))))"

fun for_j :: "mat \<Rightarrow> nat \<Rightarrow> nat \<Rightarrow> nat list \<Rightarrow> gonzalez \<Rightarrow> gonzalez result" where
  "for_j source i nc [] s = Some (Inr s)"
| "for_j source i nc (j # js) s =
     (case prune_cluster source i nc j s of
        Some (Inr s') \<Rightarrow> for_j source i nc js s'
      | r \<Rightarrow> r)"

text \<open>Lines 124 to 135: the next centre is promoted to a cluster of its own.\<close>

definition promote :: "nat \<Rightarrow> nat \<Rightarrow> gonzalez \<Rightarrow> error + gonzalez" where
  "promote i nc s =
     (let s1 = s\<lparr> centers := (centers s)[i := nc],
                  m_radii := (m_radii s)[i := 0],
                  dist_arr := (dist_arr s)[nc := 0],
                  m_indices := (m_indices s)[nc := i],
                  far2c := (far2c s)[i := nc] \<rparr>;
          s2 = s1\<lparr> cnext := (cnext s1)[cprev s1 ! nc := cnext s1 ! nc] \<rparr>;
          s3 = s2\<lparr> cprev := (cprev s2)[cnext s2 ! nc := cprev s2 ! nc] \<rparr>;
          s4 = s3\<lparr> cnext := (cnext s3)[nc := nc] \<rparr>;
          s5 = s4\<lparr> cprev := (cprev s4)[nc := nc] \<rparr>
      in if i < length (centers s) \<and> i < length (m_radii s) \<and> nc < length (dist_arr s)
            \<and> nc < length (m_indices s) \<and> i < length (far2c s)
            \<and> nc < length (cprev s1) \<and> nc < length (cnext s1)
            \<and> cprev s1 ! nc < length (cnext s1)
            \<and> cnext s2 ! nc < length (cprev s2)
         then Inr s5 else Inl IndexOutOfBounds)"

text \<open>The body of the loop over the new clusters \<open>i = 1, ..., K - 1\<close>.\<close>

definition add_center :: "mat \<Rightarrow> nat \<Rightarrow> gonzalez \<Rightarrow> gonzalez result" where
  "add_center source i s =
     (if \<not> (0 < i \<and> i \<le> length (m_radii s)) then Some (Inl IndexOutOfBounds)
      else
        (let jmax = get_radius_idxmax i s
         in if \<not> jmax < length (far2c s) then Some (Inl IndexOutOfBounds)
            else
              (let nc = far2c s ! jmax
               in case promote i nc s of
                    Inl e \<Rightarrow> Some (Inl e)
                  | Inr s' \<Rightarrow> for_j source i nc [0..<i] s')))"

fun for_i :: "mat \<Rightarrow> nat list \<Rightarrow> gonzalez \<Rightarrow> gonzalez result" where
  "for_i source [] s = Some (Inr s)"
| "for_i source (i # is) s =
     (case add_center source i s of
        Some (Inr s') \<Rightarrow> for_i source is s'
      | r \<Rightarrow> r)"

subsection \<open>Radii and centroids\<close>

text \<open>
  Lines 179 to 183: the members of every cluster are counted and their coordinates
  summed. \<open>np\<close> is \<^verbatim>\<open>m_num_points\<close>, \<open>cc\<close> is \<^verbatim>\<open>center_coordinates\<close>.
\<close>

fun sum_members ::
  "mat \<Rightarrow> nat list \<Rightarrow> nat list \<Rightarrow> nat list \<times> rowvec option list
    \<Rightarrow> error + (nat list \<times> rowvec option list)" where
  "sum_members source idx [] (np, cc) = Inr (np, cc)"
| "sum_members source idx (i # is) (np, cc) =
     (if \<not> i < length idx then Inl IndexOutOfBounds
      else
        (let k = idx ! i
         in if \<not> (k < length np \<and> k < length cc \<and> i < length source)
            then Inl IndexOutOfBounds
            else sum_members source idx is
                   (np[k := np ! k + 1],
                    cc[k := map_option (\<lambda>row. map2 (+) row (source ! i)) (cc ! k)])))"

text \<open>
  Lines 184 and 185: every row of sums is divided by the count of its cluster. A count of
  zero gives a row that holds no numbers.
\<close>

definition divide_row :: "rowvec option \<Rightarrow> nat \<Rightarrow> rowvec option" where
  "divide_row row n =
     (case row of
        None \<Rightarrow> None
      | Some r \<Rightarrow> if n = 0 then None else Some (map (\<lambda>x. x / real n) r))"

definition finalise :: "mat \<Rightarrow> gonzalez \<Rightarrow> error + clustering" where
  "finalise source s =
     (let s1 = s\<lparr> m_radii := map sqrt (m_radii s) \<rparr>;
          s2 = s1\<lparr> m_rx := get_max_radius s1 \<rparr>
      in case sum_members source (m_indices s2) [0..<n_rows source]
                (m_num_points s2, m_centers s2) of
           Inl e \<Rightarrow> Inl e
         | Inr (np, cc) \<Rightarrow>
             Inr \<lparr> m_source = m_source s2, m_indices = m_indices s2,
                   m_centers = map2 divide_row cc np,
                   m_num_points = np, m_radii = m_radii s2, m_rx = m_rx s2,
                   m_bandwidth = m_bandwidth s2, m_epsilon = m_epsilon s2,
                   m_p_max = m_p_max s2, m_constant_series = m_constant_series s2 \<rparr>)"

subsection \<open>The constructor\<close>

text \<open>
  \<open>starting_index\<close> is the pair \<^verbatim>\<open>optional_arma_uword_t\<close>; \<open>rd\<close> is the number the
  random device returns when the pair gives no index.
\<close>

definition GonzalezClustering ::
  "externals \<Rightarrow> mat \<Rightarrow> int \<Rightarrow> real \<Rightarrow> real \<Rightarrow> bool \<times> nat \<Rightarrow> nat \<Rightarrow> clustering result" where
  "GonzalezClustering ext source K bandwidth epsilon starting_index rd =
     (case Clustering ext source K bandwidth epsilon of
        Inl e \<Rightarrow> Some (Inl e)
      | Inr c \<Rightarrow>
          (let N = n_rows source;
               s0 = allocate c (nat K) N
           in if \<not> fst starting_index \<and> N = 0 then Some (Inl DivisionByZero)
              else
                (let nc = (if fst starting_index then snd starting_index else rd mod N)
                 in case initialise source nc s0 of
                      Inl e \<Rightarrow> Some (Inl e)
                    | Inr s1 \<Rightarrow>
                        (case for_i source [1..<nat K] s1 of
                           None \<Rightarrow> None
                         | Some (Inl e) \<Rightarrow> Some (Inl e)
                         | Some (Inr s2) \<Rightarrow> Some (finalise source s2)))))"

text \<open>
  The state of the constructor when the loop over the new clusters (line 123) has run for
  the clusters \<open>i < n\<close>: lines 94 to 121 and the iterations \<open>i = 1, ..., n - 1\<close> of lines
  123 to 174. For \<open>n = K\<close> it is the state in which the loop ends; \<^verbatim>\<open>centers\<close> then
  holds the seed point of every cluster.
\<close>

definition clustering_pass ::
  "externals \<Rightarrow> mat \<Rightarrow> int \<Rightarrow> real \<Rightarrow> real \<Rightarrow> bool \<times> nat \<Rightarrow> nat \<Rightarrow> nat \<Rightarrow> gonzalez result" where
  "clustering_pass ext source K bandwidth epsilon starting_index rd n =
     (case Clustering ext source K bandwidth epsilon of
        Inl e \<Rightarrow> Some (Inl e)
      | Inr c \<Rightarrow>
          (let N = n_rows source;
               s0 = allocate c (nat K) N
           in if \<not> fst starting_index \<and> N = 0 then Some (Inl DivisionByZero)
              else
                (let nc = (if fst starting_index then snd starting_index else rd mod N)
                 in case initialise source nc s0 of
                      Inl e \<Rightarrow> Some (Inl e)
                    | Inr s1 \<Rightarrow> for_i source [1..<n] s1)))"

subsection \<open>The coefficient matrix\<close>

text \<open>
  The first loop of \<^verbatim>\<open>compute_C\<close> (lines 66 to 74). A row of the result is \<open>None\<close>
  when the centre of its cluster holds no numbers: every entry of such a row is NaN.
  Adding vectors of different lengths throws.
\<close>

fun accumulate_C ::
  "externals \<Rightarrow> clustering \<Rightarrow> real list \<Rightarrow> real \<Rightarrow> nat \<Rightarrow> nat list \<Rightarrow> rowvec option list
    \<Rightarrow> error + rowvec option list" where
  "accumulate_C ext c q h2 M [] C = Inr C"
| "accumulate_C ext c q h2 M (i # is) C =
     (if \<not> i < length (m_indices c) then Inl IndexOutOfBounds
      else
        (let k = m_indices c ! i
         in if \<not> (i < length (m_source c) \<and> k < length (m_centers c) \<and> i < length q
                   \<and> k < length C)
            then Inl IndexOutOfBounds
            else
              (case m_centers c ! k of
                 None \<Rightarrow> accumulate_C ext c q h2 M is (C[k := None])
               | Some center \<Rightarrow>
                   (let dx = map2 (-) (m_source c ! i) center;
                        distance2 = sum_list (map (\<lambda>x. x\<^sup>2) dx);
                        center_monomials =
                          compute_monomials ext (map (\<lambda>x. x / m_bandwidth c) dx) (m_p_max c);
                        f = q ! i * exp (- distance2 / h2)
                    in if length center_monomials \<noteq> M then Inl IncompatibleDimensions
                       else accumulate_C ext c q h2 M is
                              (C[k := map_option
                                        (\<lambda>row. map2 (+) row (map ((*) f) center_monomials))
                                        (C ! k)])))))"

definition compute_C :: "externals \<Rightarrow> clustering \<Rightarrow> real list \<Rightarrow> error + rowvec option list" where
  "compute_C ext c q =
     (let M = get_p_max_total ext (n_cols (m_source c)) (m_p_max c);
          C0 = replicate (length (m_centers c)) (Some (replicate M 0));
          h2 = m_bandwidth c * m_bandwidth c
      in case accumulate_C ext c q h2 M [0..<n_rows (m_source c)] C0 of
           Inl e \<Rightarrow> Inl e
         | Inr C \<Rightarrow>
             (let constant_series = compute_constant_series ext (n_cols (m_source c)) (m_p_max c)
              in if C \<noteq> [] \<and> length constant_series \<noteq> M then Inl IncompatibleDimensions
                 else Inr (map (map_option (\<lambda>row. map2 (*) row constant_series)) C)))"

subsection \<open>Brute-force farthest-point clustering\<close>

text \<open>
  The reference the spec compares the pruned pass with: a farthest-point clustering
  that on every iteration recomputes the distance of every point to every chosen centre
  from scratch. It follows the words of the spec, not the code. A point belongs to the
  first of its nearest centres, and the next centre is the first of the farthest points,
  as \<^verbatim>\<open>std::min_element\<close> and \<^verbatim>\<open>std::max_element\<close> would choose.
\<close>

definition min_element :: "real list \<Rightarrow> nat" where
  "min_element xs =
     fold (\<lambda>i smallest. if xs ! i < xs ! smallest then i else smallest) [1..<length xs] 0"

definition bf_dists :: "mat \<Rightarrow> nat list \<Rightarrow> nat \<Rightarrow> real list" where
  "bf_dists source cs k = map (\<lambda>c. ddist (source ! k) (source ! c)) cs"

definition bf_assign :: "mat \<Rightarrow> nat list \<Rightarrow> nat \<Rightarrow> nat" where
  "bf_assign source cs k = min_element (bf_dists source cs k)"

definition bf_dist :: "mat \<Rightarrow> nat list \<Rightarrow> nat \<Rightarrow> real" where
  "bf_dist source cs k = bf_dists source cs k ! bf_assign source cs k"

definition bf_farthest :: "mat \<Rightarrow> nat list \<Rightarrow> nat" where
  "bf_farthest source cs = max_element (map (bf_dist source cs) [0..<length source])"

fun bf_centers :: "mat \<Rightarrow> nat \<Rightarrow> nat list \<Rightarrow> nat list" where
  "bf_centers source 0 cs = cs"
| "bf_centers source (Suc n) cs = bf_centers source n (cs @ [bf_farthest source cs])"

definition brute_force :: "mat \<Rightarrow> nat \<Rightarrow> nat \<Rightarrow> nat list" where
  "brute_force source K start =
     (let cs = bf_centers source (K - 1) [start]
      in map (bf_assign source cs) [0..<length source])"

text \<open>The farthest point from the centres \<open>cs\<close> is unique: no other point is as far.\<close>

definition unique_farthest :: "mat \<Rightarrow> nat list \<Rightarrow> bool" where
  "unique_farthest source cs =
     list_all (\<lambda>k. k = bf_farthest source cs
                  \<or> bf_dist source cs k < bf_dist source cs (bf_farthest source cs))
       [0..<length source]"

text \<open>No iteration of the brute-force clustering has to break a tie between farthest
  points.\<close>

definition no_ties :: "mat \<Rightarrow> nat \<Rightarrow> nat \<Rightarrow> bool" where
  "no_ties source K start =
     list_all (\<lambda>n. unique_farthest source (bf_centers source n [start])) [0..<K - 1]"

subsection \<open>Notions used to state and prove the properties\<close>

text \<open>The members of cluster \<open>k\<close>, in the order of their indices.\<close>

definition members :: "nat list \<Rightarrow> nat \<Rightarrow> nat list" where
  "members idx k = filter (\<lambda>i. idx ! i = k) [0..<length idx]"

text \<open>The arithmetic mean of the rows of \<open>source\<close> with the indices \<open>mem\<close>.\<close>

definition centroid :: "mat \<Rightarrow> nat list \<Rightarrow> rowvec" where
  "centroid source mem =
     map (\<lambda>t. (\<Sum>i\<leftarrow>mem. source ! i ! t) / real (length mem)) [0..<n_cols source]"

text \<open>
  A segment of a doubly linked list held in the index vectors \<open>nxt\<close> and \<open>prv\<close>: from
  \<open>a\<close> the successors are the elements of \<open>xs\<close> in turn and then \<open>b\<close>, and the
  predecessors lead back. A ring with head \<open>c\<close> and members \<open>xs\<close> is the segment from
  \<open>c\<close> through \<open>xs\<close> back to \<open>c\<close>.
\<close>

fun seg :: "nat list \<Rightarrow> nat list \<Rightarrow> nat \<Rightarrow> nat list \<Rightarrow> nat \<Rightarrow> bool" where
  "seg nxt prv a [] b = (nxt ! a = b \<and> prv ! b = a)"
| "seg nxt prv a (x # xs) b = (nxt ! a = x \<and> prv ! x = a \<and> seg nxt prv x xs b)"

text \<open>The ring of cluster \<open>j\<close> holds exactly the points assigned to \<open>j\<close>, each once.\<close>

definition ring_ok ::
  "nat \<Rightarrow> nat list \<Rightarrow> nat list \<Rightarrow> nat list \<Rightarrow> nat \<Rightarrow> nat \<Rightarrow> nat list \<Rightarrow> bool" where
  "ring_ok N nxt prv idx j c xs =
     (seg nxt prv c xs c \<and> distinct (c # xs) \<and> set (c # xs) = {k. k < N \<and> idx ! k = j})"

definition lengths_ok :: "nat \<Rightarrow> nat \<Rightarrow> gonzalez \<Rightarrow> bool" where
  "lengths_ok N K s =
     (length (m_indices s) = N \<and> length (cnext s) = N \<and> length (cprev s) = N
      \<and> length (dist_arr s) = N \<and> length (centers s) = K \<and> length (far2c s) = K
      \<and> length (m_radii s) = K)"

definition rings_ok :: "nat \<Rightarrow> gonzalez \<Rightarrow> nat \<Rightarrow> nat list list \<Rightarrow> bool" where
  "rings_ok N s n ms =
     (length ms = n \<and> (\<forall>k<N. m_indices s ! k < n)
      \<and> (\<forall>j<n. ring_ok N (cnext s) (cprev s) (m_indices s) j (centers s ! j) (ms ! j)))"

text \<open>\<open>dist_arr\<close> holds the squared distance of every point to the centre of its cluster.\<close>

definition dist_ok :: "mat \<Rightarrow> nat \<Rightarrow> gonzalez \<Rightarrow> bool" where
  "dist_ok source N s =
     (\<forall>k<N. dist_arr s ! k = ddist (source ! k) (source ! (centers s ! (m_indices s ! k))))"

text \<open>
  The radius of cluster \<open>j\<close> bounds the distances of the members \<open>xs\<close>, and a positive
  radius is the distance of the member \<open>far2c\<close>.
\<close>

definition rad_ok :: "nat \<Rightarrow> gonzalez \<Rightarrow> nat \<Rightarrow> nat list \<Rightarrow> bool" where
  "rad_ok N s j xs =
     (far2c s ! j < N \<and> 0 \<le> m_radii s ! j
      \<and> (\<forall>k\<in>set xs. dist_arr s ! k \<le> m_radii s ! j)
      \<and> (0 < m_radii s ! j \<longrightarrow>
           far2c s ! j \<in> set xs \<and> dist_arr s ! (far2c s ! j) = m_radii s ! j))"

text \<open>Every point is assigned to the first of its nearest centres among the first \<open>n\<close>.\<close>

definition near_ok :: "mat \<Rightarrow> nat \<Rightarrow> gonzalez \<Rightarrow> nat \<Rightarrow> bool" where
  "near_ok source N s n =
     (\<forall>k<N. \<forall>j<n.
        dist_arr s ! k \<le> ddist (source ! k) (source ! (centers s ! j))
        \<and> (j < m_indices s ! k \<longrightarrow>
             dist_arr s ! k < ddist (source ! k) (source ! (centers s ! j))))"

text \<open>The points of \<open>X\<close> are not nearer to \<open>nc\<close> than to the centre of their cluster.\<close>

definition closer :: "mat \<Rightarrow> gonzalez \<Rightarrow> nat \<Rightarrow> nat set \<Rightarrow> bool" where
  "closer source s nc X = (\<forall>k\<in>X. dist_arr s ! k \<le> ddist (source ! k) (source ! nc))"

text \<open>
  The state between two iterations of the outer loop, when \<open>n\<close> clusters exist with
  the member lists \<open>ms\<close>.
\<close>

definition reg :: "mat \<Rightarrow> nat \<Rightarrow> nat \<Rightarrow> gonzalez \<Rightarrow> nat \<Rightarrow> nat list list \<Rightarrow> bool" where
  "reg source N K s n ms =
     (lengths_ok N K s \<and> length source = N \<and> 0 < n \<and> n \<le> K \<and> rings_ok N s n ms
      \<and> dist_ok source N s \<and> near_ok source N s n \<and> (\<forall>j<n. rad_ok N s j (ms ! j)))"

text \<open>
  What remains true once a centre has been chosen at distance zero: every index stays in
  range and every radius is zero, so no cluster is walked any more.
\<close>

definition weak_ok :: "mat \<Rightarrow> nat \<Rightarrow> nat \<Rightarrow> gonzalez \<Rightarrow> nat \<Rightarrow> bool" where
  "weak_ok source N K s n =
     (lengths_ok N K s \<and> length source = N \<and> 0 < n \<and> n \<le> K
      \<and> (\<forall>k<N. m_indices s ! k < n \<and> cnext s ! k < N \<and> cprev s ! k < N)
      \<and> (\<forall>j<n. far2c s ! j < N \<and> centers s ! j < N \<and> m_radii s ! j = 0))"

text \<open>
  While cluster \<open>n\<close> with centre \<open>nc\<close> is being built, an older cluster is either
  done (walked or skipped: its radius is exact and none of its members \<open>xs\<close> is nearer
  to \<open>nc\<close>) or pending. The radius of the pending cluster \<open>jmax\<close>, which gave up its
  farthest member \<open>nc\<close>, is the distance of \<open>nc\<close> to its centre.
\<close>

definition done_ok :: "mat \<Rightarrow> nat \<Rightarrow> gonzalez \<Rightarrow> nat \<Rightarrow> nat \<Rightarrow> nat list \<Rightarrow> bool" where
  "done_ok source N s nc j xs = (rad_ok N s j xs \<and> closer source s nc (set xs))"

definition pend_ok :: "mat \<Rightarrow> nat \<Rightarrow> gonzalez \<Rightarrow> nat \<Rightarrow> nat \<Rightarrow> nat \<Rightarrow> nat list \<Rightarrow> bool" where
  "pend_ok source N s nc jmax j xs =
     (if j = jmax
      then 0 < m_radii s ! j
           \<and> m_radii s ! j = ddist (source ! nc) (source ! (centers s ! j))
           \<and> (\<forall>k\<in>set xs. dist_arr s ! k \<le> m_radii s ! j)
      else rad_ok N s j xs)"

definition pass_core ::
  "mat \<Rightarrow> nat \<Rightarrow> nat \<Rightarrow> gonzalez \<Rightarrow> nat \<Rightarrow> nat \<Rightarrow> nat list list \<Rightarrow> bool" where
  "pass_core source N K s n nc ms =
     (lengths_ok N K s \<and> length source = N \<and> 0 < n \<and> n < K \<and> centers s ! n = nc
      \<and> rings_ok N s (Suc n) ms \<and> dist_ok source N s \<and> near_ok source N s n
      \<and> done_ok source N s nc n (ms ! n))"

text \<open>Before the loop over the older clusters reaches cluster \<open>j\<close>.\<close>

definition before_ok ::
  "mat \<Rightarrow> nat \<Rightarrow> nat \<Rightarrow> gonzalez \<Rightarrow> nat \<Rightarrow> nat \<Rightarrow> nat \<Rightarrow> nat \<Rightarrow> nat list list \<Rightarrow> bool" where
  "before_ok source N K s n nc jmax j ms =
     (pass_core source N K s n nc ms \<and> j \<le> n \<and> jmax < n
      \<and> (\<forall>j'<j. done_ok source N s nc j' (ms ! j'))
      \<and> (\<forall>j'. j \<le> j' \<and> j' < n \<longrightarrow> pend_ok source N s nc jmax j' (ms ! j')))"

text \<open>During the walk over cluster \<open>j\<close>, whose members \<open>kept\<close> have been visited and
  stay.\<close>

definition walk_ok ::
  "mat \<Rightarrow> nat \<Rightarrow> nat \<Rightarrow> gonzalez \<Rightarrow> nat \<Rightarrow> nat \<Rightarrow> nat \<Rightarrow> nat \<Rightarrow> nat list \<Rightarrow> nat list list \<Rightarrow> bool" where
  "walk_ok source N K s n nc jmax j kept ms =
     (pass_core source N K s n nc ms \<and> j < n \<and> jmax < n
      \<and> (\<forall>j'<j. done_ok source N s nc j' (ms ! j'))
      \<and> done_ok source N s nc j kept
      \<and> (\<forall>j'. j < j' \<and> j' < n \<longrightarrow> pend_ok source N s nc jmax j' (ms ! j')))"

text \<open>The state between two iterations of the outer loop, in either case.\<close>

definition pass_ok :: "mat \<Rightarrow> nat \<Rightarrow> nat \<Rightarrow> gonzalez \<Rightarrow> nat \<Rightarrow> bool" where
  "pass_ok source N K s n = ((\<exists>ms. reg source N K s n ms) \<or> weak_ok source N K s n)"

text \<open>
  Point sets on which the arithmetic of the code is exact. The coordinates are integers
  \<open>x\<close> with \<open>4 d x\<^sup>2 \<le> 2\<^sup>5\<^sup>3\<close>, \<open>d\<close> being the dimension. Then every difference of two
  coordinates, every square of one, every partial sum of squares and every quarter of a
  squared distance is a number that a \<^verbatim>\<open>double\<close> holds exactly, so the code compares
  the same numbers as this model, which takes a \<^verbatim>\<open>double\<close> for a real. On other
  point sets rounding, overflow to infinity and underflow to zero can make squared
  distances equal that differ as reals, and the code can choose another point than
  the model. The statements below about which point is chosen assume such a point set.
\<close>

definition exact_input :: "mat \<Rightarrow> bool" where
  "exact_input source =
     list_all (list_all (\<lambda>x. x \<in> \<int> \<and> 4 * real (n_cols source) * x\<^sup>2 \<le> 2 ^ 53)) source"

text \<open>The clustering pass leaves the other fields of the object alone.\<close>

definition same_object :: "gonzalez \<Rightarrow> gonzalez \<Rightarrow> bool" where
  "same_object s s' =
     (m_source s' = m_source s \<and> m_centers s' = m_centers s
      \<and> m_num_points s' = m_num_points s \<and> m_rx s' = m_rx s
      \<and> m_bandwidth s' = m_bandwidth s \<and> m_epsilon s' = m_epsilon s
      \<and> m_p_max s' = m_p_max s \<and> m_constant_series s' = m_constant_series s)"

subsection \<open>The coefficient matrix in the words of the spec\<close>

text \<open>
  What the spec says \<^verbatim>\<open>compute_C\<close> returns; these definitions follow the words of the
  spec, not the code. The contribution of the point \<open>i\<close> to the row of its cluster with
  the centre \<open>center\<close>: the weight \<open>q i\<close> times the Gaussian of the squared distance
  over the squared bandwidth, times the monomials of the offset divided by the bandwidth.
\<close>

definition C_term :: "externals \<Rightarrow> clustering \<Rightarrow> real list \<Rightarrow> nat \<Rightarrow> rowvec \<Rightarrow> rowvec" where
  "C_term ext c q i center =
     map ((*) (q ! i * exp (- ddist (m_source c ! i) center / (m_bandwidth c)\<^sup>2)))
       (compute_monomials ext
          (map (\<lambda>x. x / m_bandwidth c) (map2 (-) (m_source c ! i) center)) (m_p_max c))"

text \<open>The row of cluster \<open>k\<close> before the scaling: the sum of the contributions of the
  points assigned to \<open>k\<close>, all zero when there is none.\<close>

definition C_sum :: "externals \<Rightarrow> clustering \<Rightarrow> real list \<Rightarrow> nat \<Rightarrow> rowvec" where
  "C_sum ext c q k =
     (let M = get_p_max_total ext (n_cols (m_source c)) (m_p_max c)
      in case m_centers c ! k of
           None \<Rightarrow> replicate M 0
         | Some center \<Rightarrow>
             map (\<lambda>t. \<Sum>i\<leftarrow>members (m_indices c) k. C_term ext c q i center ! t) [0..<M])"

text \<open>Every row is multiplied element-wise by the constant series.\<close>

definition compute_C_spec :: "externals \<Rightarrow> clustering \<Rightarrow> real list \<Rightarrow> rowvec list" where
  "compute_C_spec ext c q =
     map (\<lambda>k. map2 (*) (C_sum ext c q k)
                (compute_constant_series ext (n_cols (m_source c)) (m_p_max c)))
       [0..<length (m_centers c)]"

subsection \<open>An instance of the collaborators\<close>

text \<open>
  The theorems below hold for every choice of the collaborators. Where a theorem is
  applied to a concrete input, this instance is used: the limit 200, the number of
  monomials of total degree at most \<open>p\<close> in \<open>d\<close> dimensions, and vectors of that
  length.
\<close>

definition example_externals :: externals where
  "example_externals =
     \<lparr> TruncationNumberUpperLimit = 200,
       compute_constant_series = (\<lambda>d p. replicate ((d + p) choose d) 1),
       compute_monomials = (\<lambda>x p. replicate ((length x + p) choose (length x)) 1),
       get_p_max_total = (\<lambda>d p. (d + p) choose d) \<rparr>"

section \<open>Properties of the truncation number\<close>


lemma truncation_loop_ge: "p \<le> truncation_loop L epsilon rx r rx2 h2 err temp p"
proof (induction L epsilon rx r rx2 h2 err temp p rule: truncation_loop.induct)
  case (1 L epsilon rx r rx2 h2 err temp p)
  show ?case
  proof (cases "err > epsilon \<and> p \<le> L")
    case True
    have "p + 1 \<le> truncation_loop L epsilon rx r rx2 h2 err temp p"
      apply (subst truncation_loop.simps)
      apply (simp only: True simp_thms if_True Let_def)
      apply (rule "1.IH" [OF True refl refl refl refl refl])
      done
    then show ?thesis by simp
  next
    case False
    then show ?thesis by (subst truncation_loop.simps) (simp only: if_False order_refl)
  qed
qed

lemma truncation_loop_le: "p \<le> L + 1 \<Longrightarrow> truncation_loop L epsilon rx r rx2 h2 err temp p \<le> L + 1"
proof (induction L epsilon rx r rx2 h2 err temp p rule: truncation_loop.induct)
  case (1 L epsilon rx r rx2 h2 err temp p)
  show ?case
  proof (cases "err > epsilon \<and> p \<le> L")
    case True
    then have pl: "p + 1 \<le> L + 1" by simp
    show ?thesis
      apply (subst truncation_loop.simps)
      apply (simp only: True simp_thms if_True Let_def)
      apply (rule "1.IH" [OF True refl refl refl refl refl pl])
      done
  next
    case False
    then show ?thesis using "1.prems" by (subst truncation_loop.simps) (simp only: if_False)
  qed
qed

lemma truncation_zero_iff:
  "(choose_truncation_number L d h epsilon rx = 0) = (1 \<le> epsilon)"
proof (cases "1 \<le> epsilon")
  case True
  then show ?thesis
    unfolding choose_truncation_number_def Let_def
    by (subst truncation_loop.simps) simp
next
  case False
  have "Suc 0 \<le> truncation_loop L epsilon rx r rx2 h2 err temp (Suc 0)" for r rx2 h2 err temp
    by (rule truncation_loop_ge)
  then show ?thesis
    using False unfolding choose_truncation_number_def Let_def
    by (subst truncation_loop.simps) (simp add: Let_def not_le Suc_le_eq)
qed

lemma choose_truncation_number_rx0:
  assumes "0 \<le> epsilon" "epsilon < 1"
  shows "choose_truncation_number L d h epsilon 0 = 1"
  using assms unfolding choose_truncation_number_def Let_def
  by (subst truncation_loop.simps, simp add: Let_def, subst truncation_loop.simps, simp)


text \<open>The loop leaves \<open>p\<close> at most one above the upper limit, never more.\<close>

lemma choose_truncation_number_le: "choose_truncation_number L d h epsilon rx \<le> L + 1"
  unfolding choose_truncation_number_def Let_def by (rule truncation_loop_le) simp

lemma loop_saturates:
  assumes r: "0 \<le> r" "r \<le> 1" and R: "R = real L + 1"
  shows "p \<le> L + 1 \<Longrightarrow> 1 \<le> temp \<Longrightarrow> 1/2 < err \<Longrightarrow>
         truncation_loop L (1/2) R r (R * R) 1 err temp p = L + 1"
proof (induction "L + 1 - p" arbitrary: p err temp)
  case 0
  then have "p = L + 1" by simp
  then show ?case by (subst truncation_loop.simps) simp
next
  case (Suc n)
  then have pL: "p \<le> L" by simp
  define p' where "p' = p + 1"
  define b where "b = min ((R + sqrt (R * R + 2 * real p' * 1)) / 2) (R + r)"
  define c where "c = R - b"
  define temp' where "temp' = temp * (2 * R * b / 1 / real p')"
  define err' where "err' = temp' * exp (- c * c / 1)"
  have Rpos: "0 < R" using R by simp
  have "R\<^sup>2 \<le> R * R + 2 * real p' * 1" by (simp add: power2_eq_square)
  then have "R \<le> sqrt (R * R + 2 * real p' * 1)" by (rule real_le_rsqrt)
  then have bR: "R \<le> b" using r by (simp add: b_def)
  have bU: "b \<le> R + 1" using r by (simp add: b_def min_le_iff_disj)
  have p'le: "real p' \<le> R" using pL R by (simp add: p'_def)
  have p'pos: "0 < real p'" by (simp add: p'_def)
  have "real p' * real p' \<le> R * b" using p'le bR p'pos Rpos
    by (meson dual_order.trans mult_mono less_imp_le)
  then have "real p' \<le> R * b / real p'" using p'pos by (simp add: pos_le_divide_eq)
  moreover have "1 \<le> real p'" by (simp add: p'_def)
  ultimately have "1 \<le> R * b / real p'" by linarith
  moreover have "2 * R * b / 1 / real p' = 2 * (R * b / real p')" by simp
  ultimately have fac: "2 \<le> 2 * R * b / 1 / real p'" by linarith
  have "1 * 2 \<le> temp * (2 * R * b / 1 / real p')"
    using fac Suc.prems(2) by (intro mult_mono) simp_all
  then have t': "2 \<le> temp'" unfolding temp'_def by simp
  have "\<bar>c\<bar> \<le> 1" using bR bU unfolding c_def by simp
  then have "\<bar>c\<bar> * \<bar>c\<bar> \<le> 1 * 1" by (intro mult_mono) simp_all
  then have "c * c \<le> 1" by simp
  then have "exp (- 1) \<le> exp (- c * c / 1)" by simp
  moreover have "inverse 3 \<le> inverse (exp (1 :: real))"
    by (rule le_imp_inverse_le) (simp_all add: exp_le)
  then have "1/3 \<le> exp (- 1 :: real)" by (simp add: exp_minus)
  ultimately have e: "1/3 \<le> exp (- c * c / 1)" by linarith
  have "2 * (1/3) \<le> temp' * exp (- c * c / 1)" using t' e
    by (intro mult_mono) auto
  then have err: "1/2 < err'" unfolding err'_def by linarith
  have cond: "err > 1/2 \<and> p \<le> L" using Suc.prems(3) pL by simp
  have "truncation_loop L (1/2) R r (R * R) 1 err' temp' p' = L + 1"
    using Suc.hyps pL t' err by (intro Suc.hyps(1)) (auto simp: p'_def)
  then show ?case
    apply (subst truncation_loop.simps)
    apply (simp only: cond simp_thms if_True Let_def)
    unfolding err'_def temp'_def c_def b_def p'_def
    apply assumption
    done
qed


text \<open>
  Claim C2, second half: the returned value never exceeds \<^verbatim>\<open>TruncationNumberUpperLimit\<close>.
  The loop condition \<^verbatim>\<open>p <= TruncationNumberUpperLimit\<close> is tested before \<open>p\<close> is
  incremented, so a search that never meets the bound ends one above the limit. For one
  dimension, bandwidth 1, tolerance 1/2 and a radius of \<open>L + 1\<close>, where \<open>L\<close> is the
  limit, every error term up to \<open>p = L + 1\<close> exceeds the tolerance and the function
  returns \<open>L + 1\<close>.
\<close>

theorem truncation_exceeds_upper_limit:
  "choose_truncation_number L 1 1 (1/2) (real L + 1) = L + 1"
  unfolding choose_truncation_number_def Let_def mult_1 mult_1_right
  by (rule loop_saturates) simp_all

text \<open>
  Claim C7 as stated: some valid input makes \<^verbatim>\<open>choose_truncation_number\<close> return 0.
  No valid input does, whatever the upper limit.
\<close>

theorem truncation_zero_counterexample:
  "\<not> (\<exists>L d h epsilon rx. 0 < d \<and> 0 < h \<and> 0 < epsilon \<and> epsilon < 1 \<and> 0 \<le> rx
        \<and> choose_truncation_number L d h epsilon rx = 0)"
  by (simp add: truncation_zero_iff)

text \<open>
  Claim C7, amended: the initial error is 1, so the loop runs at least once for every
  tolerance below 1 and the function returns at least 1; it returns 0 exactly when the
  tolerance is 1 or more, which no valid input has.
\<close>

theorem truncation_zero_only_for_invalid_epsilon:
  "(choose_truncation_number L d h epsilon rx = 0) = (1 \<le> epsilon)"
  by (rule truncation_zero_iff)

text \<open>
  Claim C9: for every valid construction (a dimension above 0, a positive bandwidth,
  a tolerance strictly between 0 and 1) the constructor of \<^verbatim>\<open>Clustering\<close> stores the
  truncation order 1: it chooses the order while the radius estimate \<^verbatim>\<open>m_rx\<close> is still
  zero, so the error vanishes in the first iteration.
\<close>

theorem p_max_is_one:
  assumes "0 \<le> K" "0 < n_cols source" "0 < h" "0 < epsilon" "epsilon < 1"
  shows "\<exists>c. Clustering ext source K h epsilon = Inr c \<and> m_p_max c = 1"
  using assms by (simp add: Clustering_def Let_def choose_truncation_number_rx0)

theorem p_max_is_one_witness:
  "\<exists>c. Clustering example_externals [[0], [1]] 1 1 (1/2) = Inr c \<and> m_p_max c = 1"
  using p_max_is_one [of 1 "[[0], [1]]" 1 "1/2" example_externals]
  by (simp add: n_cols_def)

section \<open>Properties of the clustering pass\<close>

subsection \<open>Squared distances\<close>

lemma ddist_nonneg: "0 \<le> ddist x y"
  unfolding ddist_def by (rule sum_list_nonneg) auto

lemma ddist_self: "ddist x x = 0"
  unfolding ddist_def by (induction x) auto

lemma ddist_sym: "ddist x y = ddist y x"
proof -
  have "map2 (\<lambda>a b. (a - b)\<^sup>2) x y = map2 (\<lambda>a b. (a - b)\<^sup>2) y x"
  proof (induction x arbitrary: y)
    case Nil
    then show ?case by simp
  next
    case (Cons a x)
    then show ?case by (cases y) (simp_all add: power2_commute)
  qed
  then show ?thesis by (simp add: ddist_def)
qed

lemma ddist_zero_eq:
  assumes "length x = length y" "ddist x y = 0"
  shows "x = y"
  using assms
proof (induction x y rule: list_induct2)
  case Nil
  then show ?case by simp
next
  case (Cons a x b y)
  have n: "0 \<le> ddist x y" by (rule ddist_nonneg)
  have "(a - b)\<^sup>2 + ddist x y = 0" using Cons.prems by (simp add: ddist_def)
  moreover have "0 \<le> (a - b)\<^sup>2" by simp
  ultimately have "(a - b)\<^sup>2 = 0" "ddist x y = 0" using n by linarith+
  then show ?case using Cons.IH by simp
qed

text \<open>The triangle inequality in the form the pruning needs.\<close>

lemma ddist_expand:
  assumes "length x = length c" "length c = length n"
  shows "ddist x n = ddist x c - 2 * (\<Sum>(a, b, d)\<leftarrow>zip x (zip c n). (a - b) * (d - b)) + ddist c n
       \<and> 0 \<le> 4 * ddist x c - 4 * (\<Sum>(a, b, d)\<leftarrow>zip x (zip c n). (a - b) * (d - b)) + ddist c n"
  using assms
proof (induction x c n rule: list_induct3)
  case Nil
  then show ?case by (simp add: ddist_def)
next
  case (Cons a x b c d n)
  have sq: "0 \<le> (2 * (a - b) - (d - b))\<^sup>2" by simp
  have e1: "(a - d)\<^sup>2 = (a - b)\<^sup>2 - 2 * ((a - b) * (d - b)) + (b - d)\<^sup>2"
    by (simp add: power2_eq_square algebra_simps)
  have e2: "(2 * (a - b) - (d - b))\<^sup>2 = 4 * (a - b)\<^sup>2 - 4 * ((a - b) * (d - b)) + (b - d)\<^sup>2"
    by (simp add: power2_eq_square algebra_simps)
  from sq e2 have sq': "0 \<le> 4 * (a - b)\<^sup>2 - 4 * ((a - b) * (d - b)) + (b - d)\<^sup>2"
    by linarith
  from Cons.IH sq' e1 show ?case
    unfolding ddist_def by simp
qed

lemma ddist_prune:
  assumes len: "length x = length c" "length c = length n"
    and le: "ddist c n / 4 \<ge> ddist x c"
  shows "ddist x c \<le> ddist x n"
proof -
  define P where "P = (\<Sum>(a, b, d)\<leftarrow>zip x (zip c n). (a - b) * (d - b))"
  from ddist_expand [OF len]
  have 1: "ddist x n = ddist x c - 2 * P + ddist c n" and 2: "0 \<le> 4 * ddist x c - 4 * P + ddist c n"
    by (simp_all add: P_def)
  from le have "4 * ddist x c \<le> ddist c n" by simp
  with 1 2 show ?thesis by linarith
qed

subsection \<open>The first largest and the first smallest element\<close>

lemma max_fold:
  fixes xs :: "real list"
  assumes "b \<le> length xs" "l < a" "a \<le> b"
    and "\<forall>i<a. xs ! i \<le> xs ! l" "\<forall>i<l. xs ! i < xs ! l"
  shows "fold (\<lambda>i largest. if xs ! largest < xs ! i then i else largest) [a..<b] l < b
       \<and> (\<forall>i<b. xs ! i \<le> xs ! fold (\<lambda>i largest. if xs ! largest < xs ! i then i else largest) [a..<b] l)
       \<and> (\<forall>i<fold (\<lambda>i largest. if xs ! largest < xs ! i then i else largest) [a..<b] l.
            xs ! i < xs ! fold (\<lambda>i largest. if xs ! largest < xs ! i then i else largest) [a..<b] l)"
  using assms
proof (induction "b - a" arbitrary: a l)
  case 0
  then show ?case by simp
next
  case (Suc m)
  then have ab: "a < b" by simp
  then have upt: "[a..<b] = a # [Suc a..<b]" by (simp add: upt_conv_Cons)
  let ?l = "if xs ! l < xs ! a then a else l"
  have "m = b - Suc a" using Suc.hyps(2) by simp
  moreover have "?l < Suc a" using Suc.prems(2) by simp
  moreover have "\<forall>i<Suc a. xs ! i \<le> xs ! ?l"
  proof (intro allI impI)
    fix i assume "i < Suc a"
    show "xs ! i \<le> xs ! ?l"
    proof (cases "i = a")
      case True
      then show ?thesis by auto
    next
      case False
      then have "xs ! i \<le> xs ! l" using Suc.prems(4) \<open>i < Suc a\<close> by simp
      then show ?thesis by auto
    qed
  qed
  moreover have "\<forall>i<?l. xs ! i < xs ! ?l"
  proof (intro allI impI)
    fix i assume i: "i < ?l"
    show "xs ! i < xs ! ?l"
    proof (cases "xs ! l < xs ! a")
      case True
      then have "xs ! i \<le> xs ! l" using Suc.prems(4) i by simp
      then show ?thesis using True by simp
    next
      case False
      then show ?thesis using Suc.prems(5) i by simp
    qed
  qed
  ultimately show ?case
    using Suc.hyps(1) [of "Suc a" ?l] Suc.prems(1) ab unfolding upt by simp
qed

lemma max_element_props:
  assumes "xs \<noteq> []"
  shows "max_element xs < length xs"
    and "\<forall>i<length xs. xs ! i \<le> xs ! max_element xs"
    and "\<forall>i<max_element xs. xs ! i < xs ! max_element xs"
  using max_fold [of "length xs" xs 0 1] assms
  unfolding max_element_def by (simp_all add: Suc_le_eq)

lemma min_fold:
  fixes xs :: "real list"
  assumes "b \<le> length xs" "l < a" "a \<le> b"
    and "\<forall>i<a. xs ! l \<le> xs ! i" "\<forall>i<l. xs ! l < xs ! i"
  shows "fold (\<lambda>i smallest. if xs ! i < xs ! smallest then i else smallest) [a..<b] l < b
       \<and> (\<forall>i<b. xs ! fold (\<lambda>i smallest. if xs ! i < xs ! smallest then i else smallest) [a..<b] l \<le> xs ! i)
       \<and> (\<forall>i<fold (\<lambda>i smallest. if xs ! i < xs ! smallest then i else smallest) [a..<b] l.
            xs ! fold (\<lambda>i smallest. if xs ! i < xs ! smallest then i else smallest) [a..<b] l < xs ! i)"
  using assms
proof (induction "b - a" arbitrary: a l)
  case 0
  then show ?case by simp
next
  case (Suc m)
  then have ab: "a < b" by simp
  then have upt: "[a..<b] = a # [Suc a..<b]" by (simp add: upt_conv_Cons)
  let ?l = "if xs ! a < xs ! l then a else l"
  have "m = b - Suc a" using Suc.hyps(2) by simp
  moreover have "?l < Suc a" using Suc.prems(2) by simp
  moreover have "\<forall>i<Suc a. xs ! ?l \<le> xs ! i"
  proof (intro allI impI)
    fix i assume "i < Suc a"
    show "xs ! ?l \<le> xs ! i"
    proof (cases "i = a")
      case True
      then show ?thesis by auto
    next
      case False
      then have "xs ! l \<le> xs ! i" using Suc.prems(4) \<open>i < Suc a\<close> by simp
      then show ?thesis by auto
    qed
  qed
  moreover have "\<forall>i<?l. xs ! ?l < xs ! i"
  proof (intro allI impI)
    fix i assume i: "i < ?l"
    show "xs ! ?l < xs ! i"
    proof (cases "xs ! a < xs ! l")
      case True
      then have "xs ! l \<le> xs ! i" using Suc.prems(4) i by simp
      then show ?thesis using True by simp
    next
      case False
      then show ?thesis using Suc.prems(5) i by simp
    qed
  qed
  ultimately show ?case
    using Suc.hyps(1) [of "Suc a" ?l] Suc.prems(1) ab unfolding upt by simp
qed

lemma min_element_props:
  assumes "xs \<noteq> []"
  shows "min_element xs < length xs"
    and "\<forall>i<length xs. xs ! min_element xs \<le> xs ! i"
    and "\<forall>i<min_element xs. xs ! min_element xs < xs ! i"
  using min_fold [of "length xs" xs 0 1] assms
  unfolding min_element_def by (simp_all add: Suc_le_eq)

text \<open>The first smallest element is determined by its two properties.\<close>

lemma min_element_unique:
  assumes "j < length xs" "\<forall>i<length xs. xs ! j \<le> xs ! i" "\<forall>i<j. xs ! j < xs ! i"
  shows "min_element xs = j"
proof -
  have ne: "xs \<noteq> []" using assms(1) by auto
  note m = min_element_props [OF ne]
  show ?thesis
  proof (rule ccontr)
    assume "min_element xs \<noteq> j"
    then consider "min_element xs < j" | "j < min_element xs" by linarith
    then show False
    proof cases
      case 1
      then have "xs ! j < xs ! min_element xs" using assms(3) by simp
      moreover have "xs ! min_element xs \<le> xs ! j" using m(2) assms(1) by simp
      ultimately show False by simp
    next
      case 2
      then have "xs ! min_element xs < xs ! j" using m(3) by simp
      moreover have "xs ! j \<le> xs ! min_element xs" using assms(2) m(1) by simp
      ultimately show False by simp
    qed
  qed
qed

subsection \<open>Segments and rings\<close>

lemma uword_pred_Suc [simp]: "uword_pred (Suc n) = n"
  by (simp add: uword_pred_def)

lemma seg_cong:
  "\<lbrakk>\<forall>x\<in>set (a # xs). nxt' ! x = nxt ! x; \<forall>x\<in>set (xs @ [b]). prv' ! x = prv ! x\<rbrakk>
   \<Longrightarrow> seg nxt' prv' a xs b = seg nxt prv a xs b"
  by (induction xs arbitrary: a) auto

lemma seg_append:
  "seg nxt prv a (xs @ y # ys) b = (seg nxt prv a xs y \<and> seg nxt prv y ys b)"
  by (induction xs arbitrary: a) auto

lemma seg_next: "seg nxt prv a xs b \<Longrightarrow> nxt ! a = hd (xs @ [b])"
  by (cases xs) auto

lemma seg_prev: "seg nxt prv a xs b \<Longrightarrow> prv ! b = last (a # xs)"
  by (induction xs arbitrary: a) auto

lemma seg_mid:
  assumes "seg nxt prv a (xs @ k # ys) b"
  shows "nxt ! k = hd (ys @ [b])" and "prv ! k = last (a # xs)"
  using assms seg_next [of nxt prv k ys b] seg_prev [of nxt prv a xs k]
  by (simp_all add: seg_append)

lemma seg_upd_nxt:
  "p \<notin> set (a # xs) \<Longrightarrow> seg (nxt[p := v]) prv a xs b = seg nxt prv a xs b"
  by (induction xs arbitrary: a) auto

lemma seg_upd_prv:
  "q \<notin> set (xs @ [b]) \<Longrightarrow> seg nxt (prv[q := v]) a xs b = seg nxt prv a xs b"
  by (induction xs arbitrary: a) auto

lemma seg_unlink:
  assumes "seg nxt prv a (xs @ k # ys) b"
    and "distinct (a # xs @ k # ys)" "distinct (xs @ k # ys @ [b])"
    and "last (a # xs) < length nxt" "hd (ys @ [b]) < length prv"
  shows "seg (nxt[last (a # xs) := hd (ys @ [b])]) (prv[hd (ys @ [b]) := last (a # xs)])
           a (xs @ ys) b"
  using assms
proof (induction xs arbitrary: a)
  case Nil
  show ?case
  proof (cases ys)
    case Nil
    then show ?thesis using Nil.prems by simp
  next
    case (Cons q ys')
    then show ?thesis using Nil.prems by (simp add: seg_upd_nxt seg_upd_prv)
  qed
next
  case (Cons x xs)
  have "seg (nxt[last (x # xs) := hd (ys @ [b])]) (prv[hd (ys @ [b]) := last (x # xs)]) x (xs @ ys) b"
    using Cons.prems by (intro Cons.IH) auto
  moreover have "last (x # xs) \<in> set (x # xs)" by (rule last_in_set) simp
  then have "a \<noteq> last (x # xs)" using Cons.prems(2) by auto
  moreover have "x \<noteq> hd (ys @ [b])" using Cons.prems(3)
    by (cases ys) auto
  ultimately show ?case using Cons.prems by simp
qed

lemma seg_insert:
  assumes "seg nxt prv a mi a" "distinct (a # mi)" "k \<notin> set (a # mi)"
    and "a < length nxt" "k < length nxt" "k < length prv" "nxt ! a < length prv"
  shows "seg (nxt[k := nxt ! a, a := k]) (prv[nxt ! a := k, k := a]) a (k # mi) a"
proof (cases mi)
  case Nil
  then show ?thesis using assms by simp
next
  case (Cons h mi')
  then show ?thesis using assms by (auto simp: seg_upd_nxt seg_upd_prv)
qed

subsection \<open>Initialisation\<close>

lemma take_Suc_update: "a < length xs \<Longrightarrow> take (Suc a) (xs[a := v]) = take a xs @ [v]"
  by (simp add: take_Suc_conv_app_nth)

lemma init_loop_closed:
  assumes "length source = N" "nc < N" "length (dist_arr s) = N" "length (cnext s) = N"
    "length (cprev s) = N" "a \<le> N"
  shows "init_loop source nc [a..<N] s =
     Inr (s\<lparr> dist_arr := take a (dist_arr s)
                 @ map (\<lambda>i. if i = nc then 0 else ddist (source ! i) (source ! nc)) [a..<N],
              cnext := take a (cnext s) @ map Suc [a..<N],
              cprev := take a (cprev s) @ map uword_pred [a..<N] \<rparr>)"
  using assms
proof (induction "N - a" arbitrary: a s)
  case 0
  then show ?case by simp
next
  case (Suc m)
  then have a: "a < N" by simp
  then have upt: "[a..<N] = a # [Suc a..<N]" by (simp add: upt_conv_Cons)
  let ?s = "s\<lparr> dist_arr := (dist_arr s)[a := (if a = nc then 0 else ddist (source ! a) (source ! nc))],
               cnext := (cnext s)[a := a + 1], cprev := (cprev s)[a := uword_pred a] \<rparr>"
  have "init_loop source nc [Suc a..<N] ?s =
     Inr (?s\<lparr> dist_arr := take (Suc a) (dist_arr ?s)
                 @ map (\<lambda>i. if i = nc then 0 else ddist (source ! i) (source ! nc)) [Suc a..<N],
              cnext := take (Suc a) (cnext ?s) @ map Suc [Suc a..<N],
              cprev := take (Suc a) (cprev ?s) @ map uword_pred [Suc a..<N] \<rparr>)"
    using Suc.hyps(2) Suc.prems a by (intro Suc.hyps(1)) auto
  then show ?case
    using Suc.prems a unfolding upt by (simp add: take_Suc_update)
qed

lemma path_up:
  assumes "a < b" "\<forall>i. a \<le> i \<and> i < b \<longrightarrow> nxt ! i = Suc i \<and> prv ! Suc i = i"
  shows "seg nxt prv a [Suc a..<b] b"
  using assms
proof (induction "b - a" arbitrary: a)
  case 0
  then show ?case by simp
next
  case (Suc m)
  show ?case
  proof (cases "Suc a = b")
    case True
    then show ?thesis using Suc.prems by auto
  next
    case False
    then have lt: "Suc a < b" using Suc.prems(1) by simp
    then have "seg nxt prv (Suc a) [Suc (Suc a)..<b] b"
      using Suc.hyps(2) Suc.prems(2) by (intro Suc.hyps(1)) auto
    moreover have "[Suc a..<b] = Suc a # [Suc (Suc a)..<b]" using lt by (simp add: upt_conv_Cons)
    ultimately show ?thesis using Suc.prems by auto
  qed
qed

lemma initial_ring:
  assumes "nc < N"
  shows "seg ((map Suc [0..<N])[N - 1 := 0]) ((map uword_pred [0..<N])[0 := N - 1]) nc
           ([Suc nc..<N] @ [0..<nc]) nc"
proof -
  let ?nxt = "(map Suc [0..<N])[N - 1 := 0]" and ?prv = "(map uword_pred [0..<N])[0 := N - 1]"
  have nxt: "?nxt ! i = Suc i" if "i < N - 1" for i
    using that by (simp add: nth_list_update)
  have prv: "?prv ! Suc i = i" if "Suc i < N" for i
    using that by (simp add: nth_list_update)
  have nxtN: "?nxt ! (N - 1) = 0" using assms by simp
  have prv0: "?prv ! 0 = N - 1" using assms by simp
  have up: "seg ?nxt ?prv a [Suc a..<b] b" if "a < b" "b < N" for a b
    using that by (intro path_up) (auto simp: nxt prv)
  have N1: "Suc (N - 1) = N" using assms by simp
  have split: "[a..<N] = [a..<N - 1] @ [N - 1]" if "a \<le> N - 1" for a
    using upt_Suc_append [OF that] N1 by simp
  have low: "[0..<nc] = 0 # [Suc 0..<nc]" if "0 < nc"
    using that by (simp add: upt_conv_Cons)
  consider "Suc nc = N" "nc = 0" | "Suc nc = N" "0 < nc" | "Suc nc < N" "nc = 0" | "Suc nc < N" "0 < nc"
    using assms by linarith
  then show ?thesis
  proof cases
    case 1
    then have e: "[Suc nc..<N] @ [0..<nc] = []" by simp
    show ?thesis unfolding e seg.simps using nxtN prv0 1 by simp
  next
    case 2
    then have e: "[Suc nc..<N] @ [0..<nc] = 0 # [Suc 0..<nc]" using low by simp
    have A: "seg ?nxt ?prv 0 [Suc 0..<nc] nc" using 2 assms by (intro up) auto
    have "?nxt ! nc = 0" "?prv ! 0 = nc" using nxtN prv0 2 by auto
    then show ?thesis unfolding e seg.simps using A by (intro conjI)
  next
    case 3
    then have e: "[Suc nc..<N] @ [0..<nc] = [Suc 0..<N - 1] @ [N - 1]"
      using split [of "Suc 0"] by simp
    have A: "seg ?nxt ?prv nc [Suc 0..<N - 1] (N - 1)" using 3 up [of 0 "N - 1"] by simp
    have B: "seg ?nxt ?prv (N - 1) [] nc" unfolding seg.simps using nxtN prv0 3 by simp
    show ?thesis unfolding e seg_append using A B by (intro conjI)
  next
    case 4
    then have e: "[Suc nc..<N] @ [0..<nc] = [Suc nc..<N - 1] @ (N - 1) # 0 # [Suc 0..<nc]"
      using split [of "Suc nc"] low by simp
    have A: "seg ?nxt ?prv nc [Suc nc..<N - 1] (N - 1)" using 4 by (intro up) auto
    have B: "seg ?nxt ?prv 0 [Suc 0..<nc] nc" using 4 assms by (intro up) auto
    show ?thesis unfolding e seg_append seg.simps using A B nxtN prv0 by (intro conjI)
  qed
qed

lemma initialise_reg:
  assumes len: "lengths_ok N K s0" "length source = N" and K: "0 < K" and nc: "nc < N"
    and idx: "m_indices s0 = replicate N 0"
  shows "\<exists>s1. initialise source nc s0 = Inr s1
            \<and> reg source N K s1 1 [[Suc nc..<N] @ [0..<nc]]
            \<and> same_object s0 s1 \<and> centers s1 ! 0 = nc
            \<and> dist_arr s1 = map (\<lambda>i. ddist (source ! i) (source ! nc)) [0..<N]
            \<and> m_radii s1 ! 0 = dist_arr s1 ! max_element (dist_arr s1)"
proof -
  define d where "d = map (\<lambda>i. if i = nc then 0 else ddist (source ! i) (source ! nc)) [0..<N]"
  have d_eq: "d = map (\<lambda>i. ddist (source ! i) (source ! nc)) [0..<N]"
    unfolding d_def by (simp add: ddist_self)
  have dne: "d \<noteq> []" using nc by (auto simp: d_def)
  define m where "m = max_element d"
  note mp = max_element_props [OF dne, folded m_def]
  have mN: "m < N" using mp(1) by (simp add: d_def)
  define s1 where "s1 = s0\<lparr> centers := (centers s0)[0 := nc], dist_arr := d,
      cnext := (map Suc [0..<N])[N - 1 := 0], cprev := (map uword_pred [0..<N])[0 := N - 1],
      far2c := (far2c s0)[0 := m], m_radii := (m_radii s0)[0 := d ! m] \<rparr>"
  have dl: "length d = N" by (simp add: d_def)
  have il: "init_loop source nc [0..<N] (s0\<lparr> centers := (centers s0)[0 := nc] \<rparr>)
      = Inr (s0\<lparr> centers := (centers s0)[0 := nc], dist_arr := d, cnext := map Suc [0..<N],
               cprev := map uword_pred [0..<N] \<rparr>)"
    using len nc
    by (subst init_loop_closed [where N = N]) (simp_all add: lengths_ok_def d_def)
  have ne: "far2c s0 \<noteq> []" "m_radii s0 \<noteq> []" "centers s0 \<noteq> []"
    using len K by (auto simp: lengths_ok_def)
  have init: "initialise source nc s0 = Inr s1"
    using len K nc mN ne
    by (simp add: initialise_def Let_def n_rows_def il lengths_ok_def s1_def m_def [symmetric] dl)
  have dnn: "0 \<le> d ! k" if "k < N" for k using that by (simp add: d_eq ddist_nonneg)
  have dnc: "d ! nc = 0" using nc by (simp add: d_eq ddist_self)
  let ?ms = "[Suc nc..<N] @ [0..<nc]"
  have set_ms: "set (nc # ?ms) = {k. k < N \<and> replicate N (0::nat) ! k = 0}" using nc by auto
  have dis: "distinct (nc # ?ms)" by auto
  have c0: "centers s1 ! 0 = nc" using len K by (simp add: s1_def lengths_ok_def)
  have "seg (cnext s1) (cprev s1) nc ?ms nc"
    using initial_ring [OF nc] by (simp add: s1_def)
  then have ring: "ring_ok N (cnext s1) (cprev s1) (m_indices s1) 0 (centers s1 ! 0) ?ms"
    unfolding ring_ok_def c0 using dis set_ms idx by (simp add: s1_def)
  have f0: "far2c s1 ! 0 = m" and r0: "m_radii s1 ! 0 = d ! m" and d1: "dist_arr s1 = d"
    using len K by (simp_all add: s1_def lengths_ok_def)
  have rad: "rad_ok N s1 0 ?ms"
  proof -
    have "m \<in> set ?ms" if "0 < d ! m"
    proof -
      have "m \<noteq> nc" using that dnc by auto
      then show ?thesis using mN by auto
    qed
    moreover have "\<forall>k\<in>set ?ms. d ! k \<le> d ! m" using mp(2) nc dl by auto
    ultimately show ?thesis
      unfolding rad_ok_def f0 r0 d1 using mN dnn [of m] by simp
  qed
  have l1: "lengths_ok N K s1" using len by (simp add: lengths_ok_def s1_def dl)
  have i1: "m_indices s1 = replicate N 0" using idx by (simp add: s1_def)
  have rings: "rings_ok N s1 1 [?ms]"
    unfolding rings_ok_def using ring by (simp add: i1)
  have dk: "dist_arr s1 ! k = ddist (source ! k) (source ! nc)" if "k < N" for k
    using that by (simp add: d1 d_eq)
  have dist: "dist_ok source N s1"
    unfolding dist_ok_def using dk by (simp add: i1 c0)
  have near: "near_ok source N s1 1"
    unfolding near_ok_def using dk by (simp add: i1 c0)
  have "reg source N K s1 1 [?ms]"
    unfolding reg_def using l1 len(2) K rings dist near rad by simp
  moreover have "same_object s0 s1" by (simp add: same_object_def s1_def)
  moreover have "dist_arr s1 = map (\<lambda>i. ddist (source ! i) (source ! nc)) [0..<N]"
    by (simp add: s1_def d_eq)
  moreover have "m_radii s1 ! 0 = dist_arr s1 ! max_element (dist_arr s1)"
    by (simp add: r0 d1 m_def)
  ultimately show ?thesis using init c0 by blast
qed

subsection \<open>Counting the members and summing their coordinates\<close>

lemma sum_members_closed:
  assumes "\<forall>i\<in>set is. i < length idx \<and> idx ! i < K \<and> i < length source"
    and "length np = K" "length cc = K"
  shows "sum_members source idx is (np, cc) =
     Inr (map (\<lambda>k. np ! k + length (filter (\<lambda>i. idx ! i = k) is)) [0..<K],
          map (\<lambda>k. map_option
                 (\<lambda>row. foldl (map2 (+)) row (map ((!) source) (filter (\<lambda>i. idx ! i = k) is)))
                 (cc ! k)) [0..<K])"
  using assms
proof (induction "is" arbitrary: np cc)
  case Nil
  have "map ((!) np) [0..<length np] = np" "map ((!) cc) [0..<length cc] = cc"
    by (rule map_nth)+
  then show ?case using Nil.prems by (simp add: option.map_ident)
next
  case (Cons i "is")
  let ?k = "idx ! i"
  let ?np = "np[?k := np ! ?k + 1]"
  let ?cc = "cc[?k := map_option (\<lambda>row. map2 (+) row (source ! i)) (cc ! ?k)]"
  have k: "?k < K" "i < length idx" "i < length source" using Cons.prems(1) by auto
  have IH: "sum_members source idx is (?np, ?cc) =
     Inr (map (\<lambda>k. ?np ! k + length (filter (\<lambda>i. idx ! i = k) is)) [0..<K],
          map (\<lambda>k. map_option
                 (\<lambda>row. foldl (map2 (+)) row (map ((!) source) (filter (\<lambda>i. idx ! i = k) is)))
                 (?cc ! k)) [0..<K])"
    using Cons.prems by (intro Cons.IH) auto
  have 1: "map (\<lambda>k. ?np ! k + length (filter (\<lambda>i. idx ! i = k) is)) [0..<K]
         = map (\<lambda>k. np ! k + length (filter (\<lambda>i. idx ! i = k) (i # is))) [0..<K]"
    using Cons.prems(2) by (intro map_cong) (auto simp: nth_list_update)
  have 2: "map (\<lambda>k. map_option
                 (\<lambda>row. foldl (map2 (+)) row (map ((!) source) (filter (\<lambda>i. idx ! i = k) is)))
                 (?cc ! k)) [0..<K]
         = map (\<lambda>k. map_option
                 (\<lambda>row. foldl (map2 (+)) row (map ((!) source) (filter (\<lambda>i. idx ! i = k) (i # is))))
                 (cc ! k)) [0..<K]"
    using Cons.prems(3) by (intro map_cong) (auto simp: nth_list_update option.map_comp comp_def)
  show ?case
    using k Cons.prems(2,3) unfolding sum_members.simps Let_def IH 1 2 by simp
qed

lemma map2_add_nth:
  "length a = d \<Longrightarrow> length r = d \<Longrightarrow> map2 (+) a r = map (\<lambda>t. a ! t + r ! t) [0..<d]"
  by (intro nth_equalityI) auto

lemma foldl_add_rows:
  assumes "\<forall>r\<in>set rows. length r = d" "length acc = d"
  shows "foldl (map2 (+)) acc rows = map (\<lambda>t. acc ! t + (\<Sum>r\<leftarrow>rows. r ! t)) [0..<d]"
  using assms
proof (induction rows arbitrary: acc)
  case Nil
  then show ?case by (intro nth_equalityI) auto
next
  case (Cons r rows)
  have "foldl (map2 (+)) (map2 (+) acc r) rows
      = map (\<lambda>t. map2 (+) acc r ! t + (\<Sum>r\<leftarrow>rows. r ! t)) [0..<d]"
    using Cons.prems by (intro Cons.IH) auto
  then show ?case using Cons.prems by (simp add: map2_add_nth [where d = d] add.assoc)
qed

lemma is_mat_row: "is_mat source \<Longrightarrow> i < length source \<Longrightarrow> length (source ! i) = n_cols source"
  by (simp add: is_mat_def list_all_length)

lemma finalise_closed:
  assumes mat: "is_mat source" and len: "length source = N" "length (m_indices s) = N"
    and idx: "\<forall>i<N. m_indices s ! i < K"
    and np: "m_num_points s = replicate K 0"
    and cc: "m_centers s = replicate K (Some (replicate (n_cols source) 0))"
  shows "\<exists>c. finalise source s = Inr c
      \<and> m_indices c = m_indices s
      \<and> m_radii c = map sqrt (m_radii s)
      \<and> m_rx c = get_max_radius (s\<lparr> m_radii := map sqrt (m_radii s) \<rparr>)
      \<and> m_num_points c = map (\<lambda>k. length (members (m_indices s) k)) [0..<K]
      \<and> m_centers c = map (\<lambda>k. if members (m_indices s) k = [] then None
                                else Some (centroid source (members (m_indices s) k))) [0..<K]
      \<and> m_source c = m_source s \<and> m_bandwidth c = m_bandwidth s \<and> m_epsilon c = m_epsilon s
      \<and> m_p_max c = m_p_max s \<and> m_constant_series c = m_constant_series s"
proof -
  let ?idx = "m_indices s"
  let ?d = "n_cols source"
  have sm: "sum_members source ?idx [0..<N] (replicate K 0, replicate K (Some (replicate ?d 0))) =
     Inr (map (\<lambda>k. replicate K 0 ! k + length (filter (\<lambda>i. ?idx ! i = k) [0..<N])) [0..<K],
          map (\<lambda>k. map_option
                 (\<lambda>row. foldl (map2 (+)) row (map ((!) source) (filter (\<lambda>i. ?idx ! i = k) [0..<N])))
                 (replicate K (Some (replicate ?d 0)) ! k)) [0..<K])"
    using len idx by (intro sum_members_closed) auto
  have mem: "filter (\<lambda>i. ?idx ! i = k) [0..<N] = members ?idx k" for k
    using len by (simp add: members_def)
  have rows: "foldl (map2 (+)) (replicate ?d 0) (map ((!) source) (members ?idx k))
      = map (\<lambda>t. \<Sum>i\<leftarrow>members ?idx k. source ! i ! t) [0..<?d]" for k
  proof -
    have "\<forall>r\<in>set (map ((!) source) (members ?idx k)). length r = ?d"
      using mat len by (auto simp: is_mat_row members_def)
    then show ?thesis
      by (subst foldl_add_rows [where d = ?d]) (simp_all add: comp_def)
  qed
  have row_k: "divide_row (Some (foldl (map2 (+)) (replicate ?d 0) (map ((!) source) (members ?idx k))))
        (length (members ?idx k))
      = (if members ?idx k = [] then None else Some (centroid source (members ?idx k)))" for k
    by (simp add: divide_row_def rows centroid_def comp_def)
  have cen: "map2 divide_row
        (map (\<lambda>k. map_option
                 (\<lambda>row. foldl (map2 (+)) row (map ((!) source) (filter (\<lambda>i. ?idx ! i = k) [0..<N])))
                 (replicate K (Some (replicate ?d 0)) ! k)) [0..<K])
        (map (\<lambda>k. length (members ?idx k)) [0..<K])
      = map (\<lambda>k. if members ?idx k = [] then None else Some (centroid source (members ?idx k))) [0..<K]"
    unfolding map2_map_map mem by (intro map_cong refl) (simp add: row_k)
  have cnt: "map (\<lambda>k. replicate K 0 ! k + length (filter (\<lambda>i. ?idx ! i = k) [0..<N])) [0..<K]
      = map (\<lambda>k. length (members ?idx k)) [0..<K]"
    unfolding mem by (intro map_cong refl) simp
  show ?thesis
    unfolding finalise_def Let_def n_rows_def
    using len np cc by (simp add: sm cen cnt)
qed

subsection \<open>Closed forms of the list operations\<close>

lemma keep_member_closed:
  "j < length (m_radii s) \<Longrightarrow> j < length (far2c s) \<Longrightarrow>
   keep_member j k d s =
     Inr (if m_radii s ! j < d
          then s\<lparr> m_radii := (m_radii s)[j := d], far2c := (far2c s)[j := k] \<rparr> else s)"
  by (simp add: keep_member_def)

lemma move_member_closed:
  assumes "lengths_ok N K s" "k < N" "nc < N" "i < K" "nextk < N" "cprev s ! k < N"
    "cnext s ! nc < N" "cprev s ! k \<noteq> nc" "k \<noteq> nc"
  shows "move_member i nc k nextk dd s =
     Inr (s\<lparr> dist_arr := (dist_arr s)[k := dd], m_indices := (m_indices s)[k := i],
              m_radii := (if m_radii s ! i < dd then (m_radii s)[i := dd] else m_radii s),
              far2c := (if m_radii s ! i < dd then (far2c s)[i := k] else far2c s),
              cnext := (cnext s)[cprev s ! k := nextk, k := cnext s ! nc, nc := k],
              cprev := (cprev s)[nextk := cprev s ! k, cnext s ! nc := k, k := nc] \<rparr>)"
  using assms by (simp add: move_member_def Let_def lengths_ok_def)

lemma nth_update_self [simp]: "(xs[p := xs ! a]) ! a = xs ! a"
  by (cases "p = a"; cases "p < length xs") auto

lemma promote_closed:
  assumes "lengths_ok N K s" "nc < N" "i < K" "cprev s ! nc < N" "cnext s ! nc < N"
  shows "promote i nc s =
     Inr (s\<lparr> centers := (centers s)[i := nc], m_radii := (m_radii s)[i := 0],
              dist_arr := (dist_arr s)[nc := 0], m_indices := (m_indices s)[nc := i],
              far2c := (far2c s)[i := nc],
              cnext := (cnext s)[cprev s ! nc := cnext s ! nc, nc := nc],
              cprev := (cprev s)[cnext s ! nc := cprev s ! nc, nc := nc] \<rparr>)"
  using assms by (simp add: promote_def Let_def lengths_ok_def)

subsection \<open>Rings\<close>

lemma seg_succ_in: "seg nxt prv a xs b \<Longrightarrow> x \<in> set (a # xs) \<Longrightarrow> nxt ! x \<in> set (xs @ [b])"
  by (induction xs arbitrary: a) auto

lemma seg_pred_in: "seg nxt prv a xs b \<Longrightarrow> x \<in> set (xs @ [b]) \<Longrightarrow> prv ! x \<in> set (a # xs)"
  by (induction xs arbitrary: a) auto

lemma ring_ok_mem: "ring_ok N nxt prv idx j c xs \<Longrightarrow> x \<in> set (c # xs) \<Longrightarrow> x < N \<and> idx ! x = j"
  unfolding ring_ok_def by blast

lemma ring_ok_succ:
  assumes "ring_ok N nxt prv idx j c xs" "x \<in> set (c # xs)"
  shows "nxt ! x \<in> set (c # xs)" "prv ! x \<in> set (c # xs)"
  using assms seg_succ_in [of nxt prv c xs c x] seg_pred_in [of nxt prv c xs c x]
  unfolding ring_ok_def by auto

lemma rings_ok_ring:
  "rings_ok N s n ms \<Longrightarrow> j < n \<Longrightarrow>
   ring_ok N (cnext s) (cprev s) (m_indices s) j (centers s ! j) (ms ! j)"
  by (simp add: rings_ok_def)

lemma rings_ok_in_ring:
  assumes "rings_ok N s n ms" "x < N"
  shows "m_indices s ! x < n" "x \<in> set (centers s ! (m_indices s ! x) # ms ! (m_indices s ! x))"
proof -
  show lt: "m_indices s ! x < n" using assms by (simp add: rings_ok_def)
  from rings_ok_ring [OF assms(1) lt]
  have "set (centers s ! (m_indices s ! x) # ms ! (m_indices s ! x))
        = {k. k < N \<and> m_indices s ! k = m_indices s ! x}"
    by (simp add: ring_ok_def)
  then show "x \<in> set (centers s ! (m_indices s ! x) # ms ! (m_indices s ! x))"
    using assms(2) by blast
qed

lemma rings_ok_bounds:
  assumes "rings_ok N s n ms" "x < N"
  shows "cnext s ! x < N" "cprev s ! x < N"
proof -
  let ?j = "m_indices s ! x"
  note r = rings_ok_ring [OF assms(1) rings_ok_in_ring(1) [OF assms]]
  note m = rings_ok_in_ring(2) [OF assms]
  show "cnext s ! x < N" using ring_ok_mem [OF r ring_ok_succ(1) [OF r m]] by simp
  show "cprev s ! x < N" using ring_ok_mem [OF r ring_ok_succ(2) [OF r m]] by simp
qed

lemma rings_ok_center:
  assumes "rings_ok N s n ms" "j < n"
  shows "centers s ! j < N" "m_indices s ! (centers s ! j) = j"
  using ring_ok_mem [OF rings_ok_ring [OF assms], of "centers s ! j"] by simp_all

lemma rings_ok_member:
  assumes "rings_ok N s n ms" "j < n" "x \<in> set (ms ! j)"
  shows "x < N" "m_indices s ! x = j" "x \<noteq> centers s ! j"
proof -
  note r = rings_ok_ring [OF assms(1,2)]
  show "x < N" "m_indices s ! x = j" using ring_ok_mem [OF r, of x] assms(3) by simp_all
  show "x \<noteq> centers s ! j" using r assms(3) by (auto simp: ring_ok_def)
qed

lemma dist_center_zero:
  assumes "rings_ok N s n ms" "dist_ok source N s" "j < n"
  shows "dist_arr s ! (centers s ! j) = 0"
  using assms rings_ok_center [OF assms(1,3)] by (simp add: dist_ok_def ddist_self)

subsection \<open>What a predicate depends on\<close>

lemma ring_ok_frame:
  assumes "ring_ok N nxt prv idx j c xs"
    and "\<forall>x\<in>set (c # xs). nxt' ! x = nxt ! x \<and> prv' ! x = prv ! x"
    and "{x. x < N \<and> idx' ! x = j} = {x. x < N \<and> idx ! x = j}"
  shows "ring_ok N nxt' prv' idx' j c xs"
proof -
  have "seg nxt' prv' c xs c = seg nxt prv c xs c"
    using assms(2) by (intro seg_cong) auto
  then show ?thesis using assms(1,3) by (simp add: ring_ok_def)
qed

lemma rad_ok_frame:
  assumes "rad_ok N s j xs" "far2c s' ! j = far2c s ! j" "m_radii s' ! j = m_radii s ! j"
    and "\<forall>x\<in>set xs. dist_arr s' ! x = dist_arr s ! x"
  shows "rad_ok N s' j xs"
  using assms unfolding rad_ok_def by auto

lemma closer_frame:
  assumes "closer source s nc X" "\<forall>x\<in>X. dist_arr s' ! x = dist_arr s ! x"
  shows "closer source s' nc X"
  using assms unfolding closer_def by auto

lemma done_ok_frame:
  assumes "done_ok source N s nc j xs" "far2c s' ! j = far2c s ! j"
    "m_radii s' ! j = m_radii s ! j" "\<forall>x\<in>set xs. dist_arr s' ! x = dist_arr s ! x"
  shows "done_ok source N s' nc j xs"
  using assms rad_ok_frame [of N s j xs s'] closer_frame [of source s nc "set xs" s']
  unfolding done_ok_def by blast

lemma pend_ok_frame:
  assumes "pend_ok source N s nc jmax j xs" "far2c s' ! j = far2c s ! j"
    "m_radii s' ! j = m_radii s ! j" "\<forall>x\<in>set xs. dist_arr s' ! x = dist_arr s ! x"
    "centers s' ! j = centers s ! j"
  shows "pend_ok source N s' nc jmax j xs"
proof (cases "j = jmax")
  case True
  then show ?thesis using assms unfolding pend_ok_def by auto
next
  case False
  then show ?thesis using assms rad_ok_frame [of N s j xs s'] unfolding pend_ok_def by auto
qed

subsection \<open>A member that stays\<close>

lemma stay_step:
  assumes W: "walk_ok source N K s n nc jmax j kept ms"
    and msj: "ms ! j = kept @ k # rest"
    and near: "dist_arr s ! k \<le> ddist (source ! k) (source ! nc)"
    and s': "s' = (if m_radii s ! j < dist_arr s ! k
                   then s\<lparr> m_radii := (m_radii s)[j := dist_arr s ! k],
                            far2c := (far2c s)[j := k] \<rparr> else s)"
  shows "walk_ok source N K s' n nc jmax j (kept @ [k]) ms"
    and "same_object s s'" and "centers s' = centers s"
proof -
  from W have core: "pass_core source N K s n nc ms" and jn: "j < n" and jm: "jmax < n"
    and dn: "\<forall>j'<j. done_ok source N s nc j' (ms ! j')"
    and dj: "done_ok source N s nc j kept"
    and pd: "\<forall>j'. j < j' \<and> j' < n \<longrightarrow> pend_ok source N s nc jmax j' (ms ! j')"
    by (simp_all add: walk_ok_def)
  from core have len: "lengths_ok N K s" and src: "length source = N" and n: "0 < n" "n < K"
    and cn: "centers s ! n = nc" and rings: "rings_ok N s (Suc n) ms"
    and dist: "dist_ok source N s" and nr: "near_ok source N s n"
    and dnn: "done_ok source N s nc n (ms ! n)"
    by (simp_all add: pass_core_def)
  have jK: "j < K" using jn n by simp
  have kin: "k \<in> set (ms ! j)" using msj by simp
  have kN: "k < N" using rings_ok_member(1) [OF rings _ kin] jn by simp
  have f: "cnext s' = cnext s" "cprev s' = cprev s" "m_indices s' = m_indices s"
    "centers s' = centers s" "dist_arr s' = dist_arr s"
    by (simp_all add: s')
  have r: "m_radii s' ! j' = m_radii s ! j'" "far2c s' ! j' = far2c s ! j'" if "j' \<noteq> j" for j'
    using that by (simp_all add: s')
  have rj: "m_radii s' ! j = max (m_radii s ! j) (dist_arr s ! k)"
    and fj: "far2c s' ! j = (if m_radii s ! j < dist_arr s ! k then k else far2c s ! j)"
    using len jK by (simp_all add: s' lengths_ok_def max_def)
  have len': "lengths_ok N K s'" using len by (simp add: s' lengths_ok_def)
  have rings': "rings_ok N s' (Suc n) ms" using rings by (simp add: rings_ok_def f)
  have dist': "dist_ok source N s'" using dist by (simp add: dist_ok_def f)
  have nr': "near_ok source N s' n" using nr by (simp add: near_ok_def f)
  have dnn': "done_ok source N s' nc n (ms ! n)"
    using dnn jn by (intro done_ok_frame [of source N s nc n "ms ! n" s']) (simp_all add: r f)
  have core': "pass_core source N K s' n nc ms"
    unfolding pass_core_def using len' src n cn rings' dist' nr' dnn' by (simp add: f)
  have dn': "\<forall>j'<j. done_ok source N s' nc j' (ms ! j')"
    using dn by (auto intro!: done_ok_frame [of source N s nc _ _ s'] simp: r f)
  have pd': "\<forall>j'. j < j' \<and> j' < n \<longrightarrow> pend_ok source N s' nc jmax j' (ms ! j')"
    using pd by (auto intro!: pend_ok_frame [of source N s nc jmax _ _ s'] simp: r f)
  from dj have radj: "rad_ok N s j kept" and clj: "closer source s nc (set kept)"
    by (simp_all add: done_ok_def)
  have "rad_ok N s' j (kept @ [k])"
    using radj kN unfolding rad_ok_def rj fj f by (auto simp: max_def)
  moreover have "closer source s' nc (set (kept @ [k]))"
    using clj near unfolding closer_def f by auto
  ultimately have dj': "done_ok source N s' nc j (kept @ [k])" by (simp add: done_ok_def)
  show "walk_ok source N K s' n nc jmax j (kept @ [k]) ms"
    unfolding walk_ok_def using core' jn jm dn' dj' pd' by simp
  show "same_object s s'" by (simp add: same_object_def s')
  show "centers s' = centers s" by (rule f)
qed

subsection \<open>A member that moves to the new cluster\<close>

lemma upd3_other:
  "x \<noteq> a \<Longrightarrow> x \<noteq> b \<Longrightarrow> x \<noteq> c \<Longrightarrow> xs[a := u, b := v, c := w] ! x = xs ! x"
  by simp

lemma move_step:
  assumes W: "walk_ok source N K s n nc jmax j kept ms"
    and msj: "ms ! j = kept @ k # rest"
    and dd: "dd = ddist (source ! k) (source ! nc)"
    and lt: "dd < dist_arr s ! k"
    and s': "s' = s\<lparr> dist_arr := (dist_arr s)[k := dd], m_indices := (m_indices s)[k := n],
              m_radii := (if m_radii s ! n < dd then (m_radii s)[n := dd] else m_radii s),
              far2c := (if m_radii s ! n < dd then (far2c s)[n := k] else far2c s),
              cnext := (cnext s)[cprev s ! k := cnext s ! k, k := cnext s ! nc, nc := k],
              cprev := (cprev s)[cnext s ! k := cprev s ! k, cnext s ! nc := k, k := nc] \<rparr>"
    and ms': "ms' = ms[j := kept @ rest, n := k # ms ! n]"
  shows "walk_ok source N K s' n nc jmax j kept ms'"
    and "ms' ! j = kept @ rest"
    and "same_object s s'" and "centers s' = centers s"
    and "k \<noteq> nc" and "cprev s ! k \<noteq> nc"
proof -
  from W have core: "pass_core source N K s n nc ms" and jn: "j < n" and jm: "jmax < n"
    and dn: "\<forall>j'<j. done_ok source N s nc j' (ms ! j')"
    and dj: "done_ok source N s nc j kept"
    and pd: "\<forall>j'. j < j' \<and> j' < n \<longrightarrow> pend_ok source N s nc jmax j' (ms ! j')"
    by (simp_all add: walk_ok_def)
  from core have len: "lengths_ok N K s" and src: "length source = N" and n: "0 < n" "n < K"
    and cn: "centers s ! n = nc" and rings: "rings_ok N s (Suc n) ms"
    and dist: "dist_ok source N s" and nr: "near_ok source N s n"
    and dnn: "done_ok source N s nc n (ms ! n)"
    by (simp_all add: pass_core_def)
  define c where "c = centers s ! j"
  define mn where "mn = ms ! n"
  define p where "p = cprev s ! k"
  define q where "q = cnext s ! k"
  define h where "h = cnext s ! nc"
  let ?nxt = "cnext s" and ?prv = "cprev s" and ?idx = "m_indices s"
  have lms: "length ms = Suc n" using rings by (simp add: rings_ok_def)
  have jS: "j < Suc n" "n < Suc n" using jn by simp_all
  have rj: "ring_ok N ?nxt ?prv ?idx j c (kept @ k # rest)"
    using rings_ok_ring [OF rings jS(1)] by (simp add: c_def msj)
  have rn: "ring_ok N ?nxt ?prv ?idx n nc mn"
    using rings_ok_ring [OF rings jS(2)] by (simp add: mn_def cn)
  have segj: "seg ?nxt ?prv c (kept @ k # rest) c" and disj: "distinct (c # kept @ k # rest)"
    and setj: "set (c # kept @ k # rest) = {x. x < N \<and> ?idx ! x = j}"
    using rj by (simp_all add: ring_ok_def)
  have segn: "seg ?nxt ?prv nc mn nc" and disn: "distinct (nc # mn)"
    and setn: "set (nc # mn) = {x. x < N \<and> ?idx ! x = n}"
    using rn by (simp_all add: ring_ok_def)
  have p_eq: "p = last (c # kept)" and q_eq: "q = hd (rest @ [c])"
    using seg_mid [OF segj] by (simp_all add: p_def q_def)
  have h_eq: "h = hd (mn @ [nc])" using seg_next [OF segn] by (simp add: h_def)
  have inj: "x < N \<and> ?idx ! x = j" if "x \<in> set (c # kept @ k # rest)" for x
    using that setj by blast
  have inn: "x < N \<and> ?idx ! x = n" if "x \<in> set (nc # mn)" for x
    using that setn by blast
  have pin: "p \<in> set (c # kept)" unfolding p_eq by (rule last_in_set) simp
  have qin: "q \<in> set (rest @ [c])" unfolding q_eq by (rule hd_in_set) simp
  have hin: "h \<in> set (mn @ [nc])" unfolding h_eq by (rule hd_in_set) simp
  have k: "k < N" "?idx ! k = j" using inj [of k] by simp_all
  have pj: "p < N" "?idx ! p = j" using inj [of p] pin by auto
  have qj: "q < N" "?idx ! q = j" using inj [of q] qin by auto
  have hn: "h < N" "?idx ! h = n" using inn [of h] hin by auto
  have ncn: "nc < N" "?idx ! nc = n" using inn [of nc] by simp_all
  have jnn: "j \<noteq> n" using jn by simp
  have ne: "k \<noteq> nc" "p \<noteq> nc" "q \<noteq> nc" "k \<noteq> h" "p \<noteq> h" "q \<noteq> h"
    using k pj qj hn ncn jnn by auto
  have kp: "k \<noteq> p" using disj pin by auto
  have kq: "k \<noteq> q" using disj qin by auto
  have knj: "k \<notin> set (c # kept @ rest)" using disj by auto
  have knn: "k \<notin> set (nc # mn)" using inn [of k] k jnn by auto
  have lenN: "length ?nxt = N" "length ?prv = N" "length ?idx = N" "length (dist_arr s) = N"
    and lenK: "length (centers s) = K" "length (far2c s) = K" "length (m_radii s) = K"
    using len by (simp_all add: lengths_ok_def)
  have f: "centers s' = centers s" "m_indices s' = ?idx[k := n]" "dist_arr s' = (dist_arr s)[k := dd]"
    "cnext s' = ?nxt[p := q, k := h, nc := k]" "cprev s' = ?prv[q := p, h := k, k := nc]"
    by (simp_all add: s' p_def q_def h_def)
  have r: "m_radii s' ! j' = m_radii s ! j'" "far2c s' ! j' = far2c s ! j'" if "j' \<noteq> n" for j'
    using that by (simp_all add: s')
  have rnn: "m_radii s' ! n = max (m_radii s ! n) dd"
    and fnn: "far2c s' ! n = (if m_radii s ! n < dd then k else far2c s ! n)"
    using lenK n by (simp_all add: s' max_def)
  have dx: "dist_arr s' ! x = dist_arr s ! x" if "x \<noteq> k" for x
    using that by (simp add: f)
  have dk: "dist_arr s' ! k = dd" using k lenN by (simp add: f)
  have ix: "m_indices s' ! x = ?idx ! x" if "x \<noteq> k" for x
    using that by (simp add: f)
  have ik: "m_indices s' ! k = n" using k lenN by (simp add: f)
  have len': "lengths_ok N K s'" using len by (simp add: s' lengths_ok_def)
  have msj': "ms' ! j = kept @ rest" and msn': "ms' ! n = k # mn"
    using lms jn by (simp_all add: ms' mn_def)
  have mso: "ms' ! j' = ms ! j'" if "j' \<noteq> j" "j' \<noteq> n" for j'
    using that by (simp add: ms')
  \<comment> \<open>the rings\<close>
  have cls: "{x. x < N \<and> m_indices s' ! x = j'} =
      (if j' = n then insert k {x. x < N \<and> ?idx ! x = n}
       else if j' = j then {x. x < N \<and> ?idx ! x = j} - {k}
       else {x. x < N \<and> ?idx ! x = j'})" for j'
    using k jnn lenN by (auto simp: f nth_list_update)
  have ring_j: "ring_ok N (cnext s') (cprev s') (m_indices s') j c (kept @ rest)"
  proof -
    have "seg (?nxt[last (c # kept) := hd (rest @ [c])]) (?prv[hd (rest @ [c]) := last (c # kept)])
            c (kept @ rest) c"
    proof (rule seg_unlink [OF segj disj])
      show "distinct (kept @ k # rest @ [c])" using disj by auto
      show "last (c # kept) < length ?nxt" using pj(1) [unfolded p_eq] by (simp only: lenN)
      show "hd (rest @ [c]) < length ?prv" using qj(1) [unfolded q_eq] by (simp only: lenN)
    qed
    then have "seg (?nxt[p := q]) (?prv[q := p]) c (kept @ rest) c"
      by (simp only: p_eq [symmetric] q_eq [symmetric])
    moreover have "h \<notin> set (kept @ rest @ [c])" "nc \<notin> set (c # kept @ rest)"
      using inj hn ncn jnn by auto
    ultimately have "seg (cnext s') (cprev s') c (kept @ rest) c"
      using knj unfolding f by (simp add: seg_upd_nxt seg_upd_prv)
    moreover have "set (c # kept @ rest) = {x. x < N \<and> m_indices s' ! x = j}"
      unfolding cls using setj knj jnn by auto
    ultimately show ?thesis using disj by (simp add: ring_ok_def)
  qed
  have ring_n: "ring_ok N (cnext s') (cprev s') (m_indices s') n nc (k # mn)"
  proof -
    have "p \<notin> set (nc # mn)" "q \<notin> set (mn @ [nc])"
      using inn pj qj jnn by auto
    then have s1: "seg (?nxt[p := q]) (?prv[q := p]) nc mn nc"
      using segn by (simp add: seg_upd_nxt seg_upd_prv)
    have h1: "?nxt[p := q] ! nc = h" using ne by (simp add: h_def)
    have "seg ((?nxt[p := q])[k := ?nxt[p := q] ! nc, nc := k])
              ((?prv[q := p])[?nxt[p := q] ! nc := k, k := nc]) nc (k # mn) nc"
      using s1 disn knn ncn k hn lenN by (intro seg_insert) (simp_all add: h1)
    then have "seg (cnext s') (cprev s') nc (k # mn) nc" unfolding f h1 by simp
    moreover have "set (nc # k # mn) = {x. x < N \<and> m_indices s' ! x = n}"
      unfolding cls using setn by auto
    ultimately show ?thesis using disn knn by (simp add: ring_ok_def)
  qed
  have ring_o: "ring_ok N (cnext s') (cprev s') (m_indices s') j' (centers s ! j') (ms ! j')"
    if "j' < n" "j' \<noteq> j" for j'
  proof -
    have ro: "ring_ok N ?nxt ?prv ?idx j' (centers s ! j') (ms ! j')"
      using rings_ok_ring [OF rings, of j'] that by simp
    have o: "x \<notin> {p, q, k, h, nc}" if "x \<in> set (centers s ! j' # ms ! j')" for x
      using ring_ok_mem [OF ro that] \<open>j' < n\<close> \<open>j' \<noteq> j\<close> k pj qj hn ncn by auto
    show ?thesis
    proof (rule ring_ok_frame [OF ro])
      show "\<forall>x\<in>set (centers s ! j' # ms ! j'). cnext s' ! x = ?nxt ! x \<and> cprev s' ! x = ?prv ! x"
        using o unfolding f by (auto simp: upd3_other)
      show "{x. x < N \<and> m_indices s' ! x = j'} = {x. x < N \<and> ?idx ! x = j'}"
        unfolding cls using that by simp
    qed
  qed
  have rings': "rings_ok N s' (Suc n) ms'"
    unfolding rings_ok_def
  proof (intro conjI allI impI)
    show "length ms' = Suc n" using lms by (simp add: ms')
    show "m_indices s' ! x < Suc n" if "x < N" for x
      using rings that by (cases "x = k") (auto simp: ik ix rings_ok_def)
    show "ring_ok N (cnext s') (cprev s') (m_indices s') j' (centers s' ! j') (ms' ! j')"
      if lt': "j' < Suc n" for j'
    proof -
      consider "j' = j" | "j' = n" | "j' < n" "j' \<noteq> j"
        using lt' by (auto simp: less_Suc_eq)
      then show ?thesis
      proof cases
        case 1
        have "ring_ok N (cnext s') (cprev s') (m_indices s') j (centers s' ! j) (ms' ! j)"
          using ring_j unfolding msj' f(1) c_def .
        then show ?thesis unfolding 1 .
      next
        case 2
        have "ring_ok N (cnext s') (cprev s') (m_indices s') n (centers s' ! n) (ms' ! n)"
          using ring_n unfolding msn' f(1) cn .
        then show ?thesis unfolding 2 .
      next
        case 3
        then have "ms' ! j' = ms ! j'" by (intro mso) auto
        then show ?thesis using ring_o [OF 3] unfolding f(1) by simp
      qed
    qed
  qed
  \<comment> \<open>the distances\<close>
  have dist': "dist_ok source N s'"
    unfolding dist_ok_def
  proof (intro allI impI)
    fix x assume "x < N"
    show "dist_arr s' ! x = ddist (source ! x) (source ! (centers s' ! (m_indices s' ! x)))"
    proof (cases "x = k")
      case True
      show ?thesis unfolding True dk ik f(1) cn by (rule dd)
    next
      case False
      then show ?thesis using dist \<open>x < N\<close> by (simp add: dx ix f(1) dist_ok_def)
    qed
  qed
  have nr': "near_ok source N s' n"
    unfolding near_ok_def
  proof (intro allI impI)
    fix x j' assume x: "x < N" and j': "j' < n"
    from nr x j' have old: "dist_arr s ! x \<le> ddist (source ! x) (source ! (centers s ! j'))"
      "j' < ?idx ! x \<longrightarrow> dist_arr s ! x < ddist (source ! x) (source ! (centers s ! j'))"
      by (simp_all add: near_ok_def)
    show "dist_arr s' ! x \<le> ddist (source ! x) (source ! (centers s' ! j'))
        \<and> (j' < m_indices s' ! x \<longrightarrow>
             dist_arr s' ! x < ddist (source ! x) (source ! (centers s' ! j')))"
    proof (cases "x = k")
      case True
      then show ?thesis using old lt by (simp add: dk f(1))
    next
      case False
      then show ?thesis using old by (simp add: dx ix f(1))
    qed
  qed
  \<comment> \<open>the new cluster\<close>
  from dnn have radn: "rad_ok N s n mn" and cln: "closer source s nc (set mn)"
    by (simp_all add: done_ok_def mn_def)
  have dnn': "done_ok source N s' nc n (k # mn)"
  proof -
    have dmn: "dist_arr s' ! x = dist_arr s ! x" if "x \<in> set mn" for x
      using that knn by (intro dx) auto
    have "rad_ok N s' n (k # mn)"
    proof (cases "m_radii s ! n < dd")
      case True
      then show ?thesis
        using radn k unfolding rad_ok_def rnn fnn by (auto simp: dk dmn max_def)
    next
      case False
      have "far2c s ! n \<in> set mn \<Longrightarrow> dist_arr s' ! (far2c s ! n) = dist_arr s ! (far2c s ! n)"
        by (rule dmn)
      then show ?thesis
        using False radn unfolding rad_ok_def rnn fnn by (auto simp: dk dmn max_def)
    qed
    moreover have "closer source s' nc (set (k # mn))"
      using cln unfolding closer_def by (auto simp: dk dd dmn)
    ultimately show ?thesis by (simp add: done_ok_def)
  qed
  have core': "pass_core source N K s' n nc ms'"
    unfolding pass_core_def using len' src n cn rings' dist' nr' dnn' by (simp add: f msn')
  \<comment> \<open>the older clusters\<close>
  have keep: "dist_arr s' ! x = dist_arr s ! x" if "x \<in> set (ms ! j')" "j' < n" "j' \<noteq> j" for x j'
  proof -
    have "?idx ! x = j'" using rings_ok_member(2) [OF rings _ that(1)] that(2) by simp
    then show ?thesis using k that(3) by (intro dx) auto
  qed
  have dn': "\<forall>j'<j. done_ok source N s' nc j' (ms' ! j')"
  proof (intro allI impI)
    fix j' assume a: "j' < j"
    then have b: "j' \<noteq> j" "j' \<noteq> n" "j' < n" using jn by simp_all
    have "done_ok source N s' nc j' (ms ! j')"
      using dn a b keep [of _ j'] by (intro done_ok_frame [of source N s nc j' "ms ! j'" s']) (simp_all add: r)
    then show "done_ok source N s' nc j' (ms' ! j')" using b by (simp add: mso)
  qed
  have pd': "\<forall>j'. j < j' \<and> j' < n \<longrightarrow> pend_ok source N s' nc jmax j' (ms' ! j')"
  proof (intro allI impI)
    fix j' assume a: "j < j' \<and> j' < n"
    then have b: "j' \<noteq> j" "j' \<noteq> n" "j' < n" by simp_all
    have "pend_ok source N s' nc jmax j' (ms ! j')"
      using pd a b keep [of _ j']
      by (intro pend_ok_frame [of source N s nc jmax j' "ms ! j'" s']) (simp_all add: r f)
    then show "pend_ok source N s' nc jmax j' (ms' ! j')" using b by (simp add: mso)
  qed
  have dj': "done_ok source N s' nc j kept"
  proof -
    have "dist_arr s' ! x = dist_arr s ! x" if "x \<in> set kept" for x
      using that knj by (intro dx) auto
    then show ?thesis
      using dj jnn by (intro done_ok_frame [of source N s nc j kept s']) (simp_all add: r)
  qed
  show "walk_ok source N K s' n nc jmax j kept ms'"
    unfolding walk_ok_def using core' jn jm dn' dj' pd' by simp
  show "ms' ! j = kept @ rest" by (rule msj')
  show "same_object s s'" by (simp add: same_object_def s')
  show "centers s' = centers s" by (rule f)
  show "k \<noteq> nc" by (rule ne)
  show "cprev s ! k \<noteq> nc" using ne by (simp add: p_def)
qed

lemma same_object_refl: "same_object s s"
  by (simp add: same_object_def)

lemma same_object_trans: "same_object s s1 \<Longrightarrow> same_object s1 s2 \<Longrightarrow> same_object s s2"
  by (simp add: same_object_def)

subsection \<open>One step of the walk\<close>

lemma scan_body_step:
  assumes W: "walk_ok source N K s n nc jmax j kept ms"
    and msj: "ms ! j = kept @ k # rest"
    and mat: "is_mat source"
    and dc: "dc2cq = ddist (source ! (centers s ! j)) (source ! nc) / 4"
  shows "\<exists>s' ms' kept'.
           scan_body source n j nc dc2cq k s = Inr (hd (rest @ [centers s ! j]), s')
         \<and> walk_ok source N K s' n nc jmax j kept' ms' \<and> ms' ! j = kept' @ rest
         \<and> same_object s s' \<and> centers s' = centers s"
proof -
  from W have core: "pass_core source N K s n nc ms" and jn: "j < n"
    by (simp_all add: walk_ok_def)
  from core have len: "lengths_ok N K s" and src: "length source = N" and n: "0 < n" "n < K"
    and cn: "centers s ! n = nc" and rings: "rings_ok N s (Suc n) ms"
    and dist: "dist_ok source N s"
    by (simp_all add: pass_core_def)
  define c where "c = centers s ! j"
  have lenN: "length (cnext s) = N" "length (cprev s) = N" "length (m_indices s) = N"
    "length (dist_arr s) = N"
    and lenK: "length (centers s) = K" "length (far2c s) = K" "length (m_radii s) = K"
    using len by (simp_all add: lengths_ok_def)
  have jS: "j < Suc n" "n < Suc n" using jn by simp_all
  have kin: "k \<in> set (ms ! j)" using msj by simp
  have k: "k < N" "m_indices s ! k = j" using rings_ok_member [OF rings jS(1) kin] by simp_all
  have cN: "c < N" and ncN: "nc < N"
    using rings_ok_center(1) [OF rings jS(1)] rings_ok_center(1) [OF rings jS(2)]
    by (simp_all add: c_def cn)
  have segj: "seg (cnext s) (cprev s) c (kept @ k # rest) c"
    using rings_ok_ring [OF rings jS(1)] by (simp add: ring_ok_def msj c_def)
  have nextk: "cnext s ! k = hd (rest @ [c])" using seg_mid(1) [OF segj] .
  have dk: "dist_arr s ! k = ddist (source ! k) (source ! c)"
    using dist k by (simp add: dist_ok_def c_def)
  have b: "cnext s ! k < N" "cprev s ! k < N" "cnext s ! nc < N"
    using rings_ok_bounds [OF rings k(1)] rings_ok_bounds(1) [OF rings ncN] by simp_all
  have jK: "j < K" using jn n by simp
  have rows: "length (source ! k) = length (source ! c)" "length (source ! c) = length (source ! nc)"
    using mat k cN ncN src by (simp_all add: is_mat_row)
  define dd where "dd = ddist (source ! k) (source ! nc)"
  define sk where "sk = (if m_radii s ! j < dist_arr s ! k
                   then s\<lparr> m_radii := (m_radii s)[j := dist_arr s ! k],
                            far2c := (far2c s)[j := k] \<rparr> else s)"
  have keep: "keep_member j k (dist_arr s ! k) s = Inr sk"
    using jK lenK by (simp add: keep_member_closed sk_def)
  show ?thesis
  proof (cases "dc2cq < dist_arr s ! k \<and> dd < dist_arr s ! k")
    case True
    define sm where "sm = s\<lparr> dist_arr := (dist_arr s)[k := dd], m_indices := (m_indices s)[k := n],
              m_radii := (if m_radii s ! n < dd then (m_radii s)[n := dd] else m_radii s),
              far2c := (if m_radii s ! n < dd then (far2c s)[n := k] else far2c s),
              cnext := (cnext s)[cprev s ! k := cnext s ! k, k := cnext s ! nc, nc := k],
              cprev := (cprev s)[cnext s ! k := cprev s ! k, cnext s ! nc := k, k := nc] \<rparr>"
    define ms' where "ms' = ms[j := kept @ rest, n := k # ms ! n]"
    note ms = move_step [OF W msj dd_def _ sm_def ms'_def]
    have lt: "dd < dist_arr s ! k" using True by simp
    have "move_member n nc k (cnext s ! k) dd s = Inr sm"
      unfolding sm_def using len k(1) ncN n(2) b ms(5,6) [OF lt]
      by (intro move_member_closed [where N = N and K = K]) simp_all
    then have "scan_body source n j nc dc2cq k s = Inr (hd (rest @ [c]), sm)"
      using True k ncN lenN src
      by (simp add: scan_body_def Let_def dd_def [symmetric] nextk)
    then show ?thesis using ms(1-4) [OF lt] unfolding c_def by blast
  next
    case False
    have near: "dist_arr s ! k \<le> ddist (source ! k) (source ! nc)"
    proof (cases "dc2cq < dist_arr s ! k")
      case True
      then show ?thesis using False by (simp add: dd_def)
    next
      case False
      then have "ddist (source ! k) (source ! c) \<le> ddist (source ! c) (source ! nc) / 4"
        by (simp add: dk dc c_def)
      from ddist_prune [OF rows this] show ?thesis by (simp add: dk)
    qed
    note st = stay_step [OF W msj near sk_def]
    have "scan_body source n j nc dc2cq k s = Inr (hd (rest @ [c]), sk)"
      using False k ncN lenN src
      by (auto simp: scan_body_def Let_def dd_def [symmetric] nextk keep)
    moreover have "ms ! j = (kept @ [k]) @ rest" using msj by simp
    ultimately show ?thesis using st unfolding c_def by blast
  qed
qed

subsection \<open>The walk over a cluster\<close>

lemma scan_walk:
  assumes mat: "is_mat source"
  shows "walk_ok source N K s n nc jmax j kept ms \<Longrightarrow> ms ! j = kept @ rest \<Longrightarrow>
         dc2cq = ddist (source ! (centers s ! j)) (source ! nc) / 4 \<Longrightarrow>
         \<exists>s' ms'. scan source n j nc dc2cq (centers s ! j) (hd (rest @ [centers s ! j])) s
                    = Some (Inr s')
           \<and> walk_ok source N K s' n nc jmax j (ms' ! j) ms'
           \<and> same_object s s' \<and> centers s' = centers s"
proof (induction rest arbitrary: s kept ms)
  case Nil
  have "scan source n j nc dc2cq (centers s ! j) (centers s ! j) s = Some (Inr s)"
    by (subst scan.simps) simp
  then have sc: "scan source n j nc dc2cq (centers s ! j) (hd ([] @ [centers s ! j])) s = Some (Inr s)"
    by simp
  have w: "walk_ok source N K s n nc jmax j (ms ! j) ms" using Nil.prems(1,2) by simp
  show ?case
    by (rule exI [of _ s], rule exI [of _ ms]) (simp only: sc w same_object_refl simp_thms)
next
  case (Cons k rest)
  from Cons.prems(1) have rings: "rings_ok N s (Suc n) ms" and jn: "j < n"
    by (simp_all add: walk_ok_def pass_core_def)
  have "k \<in> set (ms ! j)" using Cons.prems(2) by simp
  then have kc: "k \<noteq> centers s ! j" using rings_ok_member(3) [OF rings, of j k] jn by simp
  from scan_body_step [OF Cons.prems(1,2) mat Cons.prems(3)]
  obtain s1 ms1 kept1 where
    sb: "scan_body source n j nc dc2cq k s = Inr (hd (rest @ [centers s ! j]), s1)"
    and w1: "walk_ok source N K s1 n nc jmax j kept1 ms1" and m1: "ms1 ! j = kept1 @ rest"
    and so1: "same_object s s1" and c1: "centers s1 = centers s"
    by blast
  have dc1: "dc2cq = ddist (source ! (centers s1 ! j)) (source ! nc) / 4"
    using Cons.prems(3) by (simp add: c1)
  from Cons.IH [OF w1 m1 dc1]
  obtain s' ms' where
    sc: "scan source n j nc dc2cq (centers s ! j) (hd (rest @ [centers s ! j])) s1 = Some (Inr s')"
    and w': "walk_ok source N K s' n nc jmax j (ms' ! j) ms'"
    and so': "same_object s1 s'" and c': "centers s' = centers s1"
    unfolding c1 by blast
  have "scan source n j nc dc2cq (centers s ! j) k s = Some (Inr s')"
    using kc by (subst scan.simps) (simp add: sb sc)
  then show ?case using w' same_object_trans [OF so1 so'] c' c1 by auto
qed

subsection \<open>One older cluster\<close>

lemma prune_cluster_step:
  assumes B: "before_ok source N K s n nc jmax j ms" and jn: "j < n" and mat: "is_mat source"
  shows "\<exists>s' ms'. prune_cluster source n nc j s = Some (Inr s')
           \<and> before_ok source N K s' n nc jmax (Suc j) ms'
           \<and> same_object s s' \<and> centers s' = centers s"
proof -
  from B have core: "pass_core source N K s n nc ms" and jm: "jmax < n"
    and dn: "\<forall>j'<j. done_ok source N s nc j' (ms ! j')"
    and pd: "\<forall>j'. j \<le> j' \<and> j' < n \<longrightarrow> pend_ok source N s nc jmax j' (ms ! j')"
    by (simp_all add: before_ok_def)
  from core have len: "lengths_ok N K s" and src: "length source = N" and n: "0 < n" "n < K"
    and cn: "centers s ! n = nc" and rings: "rings_ok N s (Suc n) ms"
    and dist: "dist_ok source N s" and nr: "near_ok source N s n"
    and dnn: "done_ok source N s nc n (ms ! n)"
    by (simp_all add: pass_core_def)
  define c where "c = centers s ! j"
  define dc2cq where "dc2cq = ddist (source ! c) (source ! nc) / 4"
  have lenN: "length (cnext s) = N" "length (cprev s) = N" "length (m_indices s) = N"
    "length (dist_arr s) = N"
    and lenK: "length (centers s) = K" "length (far2c s) = K" "length (m_radii s) = K"
    using len by (simp_all add: lengths_ok_def)
  have jS: "j < Suc n" "n < Suc n" using jn by simp_all
  have jK: "j < K" using jn n by simp
  have cN: "c < N" and ncN: "nc < N"
    using rings_ok_center(1) [OF rings jS(1)] rings_ok_center(1) [OF rings jS(2)]
    by (simp_all add: c_def cn)
  have pj: "pend_ok source N s nc jmax j (ms ! j)" using pd jn by simp
  show ?thesis
  proof (cases "dc2cq < m_radii s ! j")
    case True
    define s0 where "s0 = s\<lparr> m_radii := (m_radii s)[j := 0], far2c := (far2c s)[j := c] \<rparr>"
    have f: "cnext s0 = cnext s" "cprev s0 = cprev s" "m_indices s0 = m_indices s"
      "centers s0 = centers s" "dist_arr s0 = dist_arr s"
      by (simp_all add: s0_def)
    have r: "m_radii s0 ! j' = m_radii s ! j'" "far2c s0 ! j' = far2c s ! j'" if "j' \<noteq> j" for j'
      using that by (simp_all add: s0_def)
    have rj: "m_radii s0 ! j = 0" "far2c s0 ! j = c" using jK lenK by (simp_all add: s0_def)
    have "pass_core source N K s0 n nc ms"
      unfolding pass_core_def
    proof (intro conjI)
      show "lengths_ok N K s0" using len by (simp add: s0_def lengths_ok_def)
      show "rings_ok N s0 (Suc n) ms" using rings by (simp add: rings_ok_def f)
      show "dist_ok source N s0" using dist by (simp add: dist_ok_def f)
      show "near_ok source N s0 n" using nr by (simp add: near_ok_def f)
      show "done_ok source N s0 nc n (ms ! n)"
        using dnn jn by (intro done_ok_frame [of source N s nc n "ms ! n" s0]) (simp_all add: r f)
    qed (use src n cn in \<open>simp_all add: f\<close>)
    moreover have "\<forall>j'<j. done_ok source N s0 nc j' (ms ! j')"
      using dn by (auto intro!: done_ok_frame [of source N s nc _ _ s0] simp: r f)
    moreover have "\<forall>j'. j < j' \<and> j' < n \<longrightarrow> pend_ok source N s0 nc jmax j' (ms ! j')"
      using pd by (auto intro!: pend_ok_frame [of source N s nc jmax _ _ s0] simp: r f)
    moreover have "done_ok source N s0 nc j []"
      using cN by (simp add: done_ok_def rad_ok_def closer_def rj)
    ultimately have W: "walk_ok source N K s0 n nc jmax j [] ms"
      unfolding walk_ok_def using jn jm by simp
    have dc0: "dc2cq = ddist (source ! (centers s0 ! j)) (source ! nc) / 4"
      by (simp add: dc2cq_def f c_def)
    from scan_walk [OF mat W _ dc0, of "ms ! j"]
    obtain s' ms' where
      sc: "scan source n j nc dc2cq c (hd (ms ! j @ [c])) s0 = Some (Inr s')"
      and w': "walk_ok source N K s' n nc jmax j (ms' ! j) ms'"
      and so: "same_object s0 s'" and c': "centers s' = centers s0"
      unfolding f c_def [symmetric] by auto
    have "seg (cnext s) (cprev s) c (ms ! j) c"
      using rings_ok_ring [OF rings jS(1)] by (simp add: ring_ok_def c_def)
    then have first: "cnext s ! c = hd (ms ! j @ [c])" by (rule seg_next)
    have "prune_cluster source n nc j s = Some (Inr s')"
      using True jK lenK lenN cN ncN src
      by (simp add: prune_cluster_def Let_def c_def [symmetric] dc2cq_def [symmetric]
            first s0_def [symmetric] sc)
    moreover have "before_ok source N K s' n nc jmax (Suc j) ms'"
      using w' jn unfolding before_ok_def walk_ok_def by (auto simp: less_Suc_eq)
    moreover have "same_object s s'" using so by (simp add: same_object_def s0_def)
    ultimately show ?thesis using c' f by auto
  next
    case False
    have neq: "j \<noteq> jmax"
    proof
      assume "j = jmax"
      then have "0 < m_radii s ! j" "m_radii s ! j = ddist (source ! nc) (source ! c)"
        using pj by (simp_all add: pend_ok_def c_def)
      then show False using False by (simp add: dc2cq_def ddist_sym [of "source ! c"])
    qed
    then have rad: "rad_ok N s j (ms ! j)" using pj by (simp add: pend_ok_def)
    have "closer source s nc (set (ms ! j))"
      unfolding closer_def
    proof
      fix k assume kin: "k \<in> set (ms ! j)"
      have k: "k < N" "m_indices s ! k = j" using rings_ok_member [OF rings jS(1) kin] by simp_all
      have dk: "dist_arr s ! k = ddist (source ! k) (source ! c)"
        using dist k by (simp add: dist_ok_def c_def)
      have "dist_arr s ! k \<le> m_radii s ! j" using rad kin by (simp add: rad_ok_def)
      then have le: "ddist (source ! k) (source ! c) \<le> ddist (source ! c) (source ! nc) / 4"
        using False by (simp add: dk dc2cq_def)
      have rows: "length (source ! k) = length (source ! c)"
        "length (source ! c) = length (source ! nc)"
        using mat k cN ncN src by (simp_all add: is_mat_row)
      from ddist_prune [OF rows le]
      show "dist_arr s ! k \<le> ddist (source ! k) (source ! nc)" by (simp add: dk)
    qed
    then have "done_ok source N s nc j (ms ! j)" using rad by (simp add: done_ok_def)
    then have "before_ok source N K s n nc jmax (Suc j) ms"
      using B jn unfolding before_ok_def by (auto simp: less_Suc_eq)
    moreover have "prune_cluster source n nc j s = Some (Inr s)"
      using False jK lenK cN ncN src
      by (simp add: prune_cluster_def Let_def c_def [symmetric] dc2cq_def [symmetric])
    ultimately show ?thesis by (auto simp: same_object_refl)
  qed
qed

lemma for_j_loop:
  assumes mat: "is_mat source"
  shows "before_ok source N K s n nc jmax j ms \<Longrightarrow>
         \<exists>s' ms'. for_j source n nc [j..<n] s = Some (Inr s')
           \<and> before_ok source N K s' n nc jmax n ms'
           \<and> same_object s s' \<and> centers s' = centers s"
proof (induction "n - j" arbitrary: j s ms)
  case 0
  then have "j = n" by (simp add: before_ok_def)
  then show ?case using 0 by (auto simp: same_object_refl)
next
  case (Suc m)
  then have jn: "j < n" by simp
  from prune_cluster_step [OF Suc.prems jn mat]
  obtain s1 ms1 where p: "prune_cluster source n nc j s = Some (Inr s1)"
    and b1: "before_ok source N K s1 n nc jmax (Suc j) ms1"
    and so1: "same_object s s1" and c1: "centers s1 = centers s"
    by blast
  have "m = n - Suc j" using Suc.hyps(2) by simp
  from Suc.hyps(1) [OF this b1]
  obtain s' ms' where f: "for_j source n nc [Suc j..<n] s1 = Some (Inr s')"
    and b': "before_ok source N K s' n nc jmax n ms'"
    and so': "same_object s1 s'" and c': "centers s' = centers s1"
    by blast
  have "[j..<n] = j # [Suc j..<n]" using jn by (simp add: upt_conv_Cons)
  then have "for_j source n nc [j..<n] s = Some (Inr s')" by (simp add: p f)
  then show ?case using b' same_object_trans [OF so1 so'] c' c1 by auto
qed

lemma before_ok_done:
  assumes B: "before_ok source N K s n nc jmax n ms"
  shows "reg source N K s (Suc n) ms"
proof -
  from B have core: "pass_core source N K s n nc ms"
    and dn: "\<forall>j'<n. done_ok source N s nc j' (ms ! j')"
    by (simp_all add: before_ok_def)
  from core have len: "lengths_ok N K s" and src: "length source = N" and n: "0 < n" "n < K"
    and cn: "centers s ! n = nc" and rings: "rings_ok N s (Suc n) ms"
    and dist: "dist_ok source N s" and nr: "near_ok source N s n"
    and dnn: "done_ok source N s nc n (ms ! n)"
    by (simp_all add: pass_core_def)
  have dall: "done_ok source N s nc j (ms ! j)" if "j < Suc n" for j
    using that dn dnn by (cases "j = n") auto
  have cl: "dist_arr s ! x \<le> ddist (source ! x) (source ! nc)" if x: "x < N" for x
  proof -
    let ?r = "m_indices s ! x"
    note i = rings_ok_in_ring [OF rings x]
    show ?thesis
    proof (cases "x = centers s ! ?r")
      case True
      then have "dist_arr s ! x = 0" using dist_center_zero [OF rings dist i(1)] by simp
      then show ?thesis by (simp add: ddist_nonneg)
    next
      case False
      then have "x \<in> set (ms ! ?r)" using i(2) by simp
      then show ?thesis using dall [OF i(1)] by (simp add: done_ok_def closer_def)
    qed
  qed
  have "near_ok source N s (Suc n)"
    unfolding near_ok_def
  proof (intro allI impI)
    fix x j assume x: "x < N" and j: "j < Suc n"
    show "dist_arr s ! x \<le> ddist (source ! x) (source ! (centers s ! j))
        \<and> (j < m_indices s ! x \<longrightarrow> dist_arr s ! x < ddist (source ! x) (source ! (centers s ! j)))"
    proof (cases "j = n")
      case True
      then show ?thesis using cl [OF x] rings_ok_in_ring(1) [OF rings x] by (simp add: cn)
    next
      case False
      then show ?thesis using nr x j by (simp add: near_ok_def)
    qed
  qed
  moreover have "\<forall>j<Suc n. rad_ok N s j (ms ! j)" using dall by (simp add: done_ok_def)
  ultimately show ?thesis
    unfolding reg_def using len src n rings dist by simp
qed

subsection \<open>Promoting the farthest point\<close>

lemma set_class_eq: "(\<And>x. x < N \<Longrightarrow> P x = Q x) \<Longrightarrow> {x. x < N \<and> P x} = {x. x < N \<and> Q x}"
  by auto

lemma promote_step:
  assumes R: "reg source N K s n ms" and nK: "n < K" and jm: "jmax < n"
    and pos: "0 < m_radii s ! jmax" and nc: "nc = far2c s ! jmax"
  shows "\<exists>s' ms'. promote n nc s = Inr s' \<and> before_ok source N K s' n nc jmax 0 ms'
           \<and> same_object s s' \<and> centers s' = (centers s)[n := nc]"
proof -
  from R have len: "lengths_ok N K s" and src: "length source = N" and n: "0 < n"
    and rings: "rings_ok N s n ms" and dist: "dist_ok source N s" and nr: "near_ok source N s n"
    and rad: "\<forall>j<n. rad_ok N s j (ms ! j)"
    by (simp_all add: reg_def)
  let ?nxt = "cnext s" and ?prv = "cprev s" and ?idx = "m_indices s"
  have lenN: "length ?nxt = N" "length ?prv = N" "length ?idx = N" "length (dist_arr s) = N"
    and lenK: "length (centers s) = K" "length (far2c s) = K" "length (m_radii s) = K"
    using len by (simp_all add: lengths_ok_def)
  have lms: "length ms = n" using rings by (simp add: rings_ok_def)
  define c where "c = centers s ! jmax"
  from rad jm pos have ncin: "nc \<in> set (ms ! jmax)" and dnc: "dist_arr s ! nc = m_radii s ! jmax"
    by (simp_all add: rad_ok_def nc)
  then obtain xs ys where msj: "ms ! jmax = xs @ nc # ys" by (meson split_list)
  have ncm: "nc < N" "?idx ! nc = jmax" "nc \<noteq> c"
    using rings_ok_member [OF rings jm ncin] by (simp_all add: c_def)
  define p where "p = ?prv ! nc"
  define q where "q = ?nxt ! nc"
  have rj: "ring_ok N ?nxt ?prv ?idx jmax c (xs @ nc # ys)"
    using rings_ok_ring [OF rings jm] by (simp add: c_def msj)
  have segj: "seg ?nxt ?prv c (xs @ nc # ys) c" and disj: "distinct (c # xs @ nc # ys)"
    and setj: "set (c # xs @ nc # ys) = {x. x < N \<and> ?idx ! x = jmax}"
    using rj by (simp_all add: ring_ok_def)
  have p_eq: "p = last (c # xs)" and q_eq: "q = hd (ys @ [c])"
    using seg_mid [OF segj] by (simp_all add: p_def q_def)
  have inj: "x < N \<and> ?idx ! x = jmax" if "x \<in> set (c # xs @ nc # ys)" for x
    using that setj by blast
  have pin: "p \<in> set (c # xs)" unfolding p_eq by (rule last_in_set) simp
  have qin: "q \<in> set (ys @ [c])" unfolding q_eq by (rule hd_in_set) simp
  have pj: "p < N" "?idx ! p = jmax" using inj [of p] pin by auto
  have qj: "q < N" "?idx ! q = jmax" using inj [of q] qin by auto
  have ncnj: "nc \<notin> set (c # xs @ ys)" using disj by auto
  define s' where "s' = s\<lparr> centers := (centers s)[n := nc], m_radii := (m_radii s)[n := 0],
              dist_arr := (dist_arr s)[nc := 0], m_indices := ?idx[nc := n],
              far2c := (far2c s)[n := nc],
              cnext := ?nxt[p := q, nc := nc], cprev := ?prv[q := p, nc := nc] \<rparr>"
  define ms' where "ms' = ms[jmax := xs @ ys] @ [[]]"
  have pr: "promote n nc s = Inr s'"
    unfolding s'_def p_def q_def using len ncm(1) nK pj(1) qj(1)
    by (intro promote_closed [where N = N and K = K]) (simp_all add: p_def q_def)
  have f: "m_indices s' = ?idx[nc := n]" "dist_arr s' = (dist_arr s)[nc := 0]"
    "cnext s' = ?nxt[p := q, nc := nc]" "cprev s' = ?prv[q := p, nc := nc]"
    "centers s' = (centers s)[n := nc]"
    by (simp_all add: s'_def)
  have cs: "centers s' ! j' = centers s ! j'" if "j' \<noteq> n" for j'
    using that by (simp add: f)
  have cn: "centers s' ! n = nc" using nK lenK by (simp add: f)
  have r: "m_radii s' ! j' = m_radii s ! j'" "far2c s' ! j' = far2c s ! j'" if "j' \<noteq> n" for j'
    using that by (simp_all add: s'_def)
  have rn: "m_radii s' ! n = 0" "far2c s' ! n = nc" using nK lenK by (simp_all add: s'_def)
  have dx: "dist_arr s' ! x = dist_arr s ! x" if "x \<noteq> nc" for x using that by (simp add: f)
  have dn0: "dist_arr s' ! nc = 0" using ncm lenN by (simp add: f)
  have ix: "m_indices s' ! x = ?idx ! x" if "x \<noteq> nc" for x using that by (simp add: f)
  have inc: "m_indices s' ! nc = n" using ncm lenN by (simp add: f)
  have idn: "?idx ! x < n" if "x < N" for x using rings that by (simp add: rings_ok_def)
  have msj': "ms' ! jmax = xs @ ys" using lms jm by (simp add: ms'_def nth_append)
  have msn': "ms' ! n = []" using lms by (simp add: ms'_def nth_append)
  have mso: "ms' ! j' = ms ! j'" if "j' \<noteq> jmax" "j' < n" for j'
    using that lms by (simp add: ms'_def nth_append)
  have E1: "(m_indices s' ! x = n) = (x = nc)" if "x < N" for x
    using that idn [of x] by (cases "x = nc") (auto simp: inc ix)
  have E2: "(m_indices s' ! x = jmax) = (?idx ! x = jmax \<and> x \<noteq> nc)" if "x < N" for x
    using that jm by (cases "x = nc") (auto simp: inc ix)
  have E3: "(m_indices s' ! x = j') = (?idx ! x = j')" if "x < N" "j' \<noteq> n" "j' \<noteq> jmax" for x j'
    using that ncm by (cases "x = nc") (auto simp: inc ix)
  have cls: "{x. x < N \<and> m_indices s' ! x = j'} =
      (if j' = n then {nc}
       else if j' = jmax then {x. x < N \<and> ?idx ! x = jmax} - {nc}
       else {x. x < N \<and> ?idx ! x = j'})" for j'
  proof (cases "j' = n")
    case True
    have "{x. x < N \<and> m_indices s' ! x = n} = {x. x < N \<and> x = nc}"
      by (rule set_class_eq) (rule E1)
    also have "\<dots> = {nc}" using ncm(1) by auto
    finally show ?thesis using True by simp
  next
    case False
    show ?thesis
    proof (cases "j' = jmax")
      case True
      have "{x. x < N \<and> m_indices s' ! x = jmax} = {x. x < N \<and> (?idx ! x = jmax \<and> x \<noteq> nc)}"
        by (rule set_class_eq) (rule E2)
      also have "\<dots> = {x. x < N \<and> ?idx ! x = jmax} - {nc}" by auto
      finally show ?thesis using True False by simp
    next
      case F2: False
      have "{x. x < N \<and> m_indices s' ! x = j'} = {x. x < N \<and> ?idx ! x = j'}"
        by (rule set_class_eq) (rule E3 [OF _ False F2])
      then show ?thesis using False F2 by simp
    qed
  qed
  have ring_j: "ring_ok N (cnext s') (cprev s') (m_indices s') jmax c (xs @ ys)"
  proof -
    have "seg (?nxt[last (c # xs) := hd (ys @ [c])]) (?prv[hd (ys @ [c]) := last (c # xs)])
            c (xs @ ys) c"
    proof (rule seg_unlink [OF segj disj])
      show "distinct (xs @ nc # ys @ [c])" using disj by auto
      show "last (c # xs) < length ?nxt" using pj(1) [unfolded p_eq] by (simp only: lenN)
      show "hd (ys @ [c]) < length ?prv" using qj(1) [unfolded q_eq] by (simp only: lenN)
    qed
    then have "seg (?nxt[p := q]) (?prv[q := p]) c (xs @ ys) c"
      by (simp only: p_eq [symmetric] q_eq [symmetric])
    moreover have "nc \<notin> set (xs @ ys @ [c])" using ncnj by auto
    ultimately have "seg (cnext s') (cprev s') c (xs @ ys) c"
      using ncnj unfolding f by (simp add: seg_upd_nxt seg_upd_prv)
    moreover have "set (c # xs @ ys) = {x. x < N \<and> m_indices s' ! x = jmax}"
      unfolding cls using setj ncnj jm by auto
    ultimately show ?thesis using disj by (simp add: ring_ok_def)
  qed
  have ring_n: "ring_ok N (cnext s') (cprev s') (m_indices s') n nc []"
    unfolding ring_ok_def cls using ncm(1) lenN by (simp add: f)
  have ring_o: "ring_ok N (cnext s') (cprev s') (m_indices s') j' (centers s ! j') (ms ! j')"
    if "j' < n" "j' \<noteq> jmax" for j'
  proof -
    have ro: "ring_ok N ?nxt ?prv ?idx j' (centers s ! j') (ms ! j')"
      using rings_ok_ring [OF rings that(1)] .
    have o: "x \<notin> {p, q, nc}" if "x \<in> set (centers s ! j' # ms ! j')" for x
      using ring_ok_mem [OF ro that] \<open>j' \<noteq> jmax\<close> pj qj ncm by auto
    show ?thesis
    proof (rule ring_ok_frame [OF ro])
      show "\<forall>x\<in>set (centers s ! j' # ms ! j'). cnext s' ! x = ?nxt ! x \<and> cprev s' ! x = ?prv ! x"
      proof
        fix x assume "x \<in> set (centers s ! j' # ms ! j')"
        from o [OF this] show "cnext s' ! x = ?nxt ! x \<and> cprev s' ! x = ?prv ! x"
          unfolding f by simp
      qed
      show "{x. x < N \<and> m_indices s' ! x = j'} = {x. x < N \<and> ?idx ! x = j'}"
        unfolding cls using that by simp
    qed
  qed
  have rings': "rings_ok N s' (Suc n) ms'"
    unfolding rings_ok_def
  proof (intro conjI allI impI)
    show "length ms' = Suc n" using lms by (simp add: ms'_def)
    show "m_indices s' ! x < Suc n" if "x < N" for x
      using idn [OF that] by (cases "x = nc") (auto simp: inc ix)
    show "ring_ok N (cnext s') (cprev s') (m_indices s') j' (centers s' ! j') (ms' ! j')"
      if lt': "j' < Suc n" for j'
    proof -
      consider "j' = jmax" | "j' = n" | "j' < n" "j' \<noteq> jmax"
        using lt' by (auto simp: less_Suc_eq)
      then show ?thesis
      proof cases
        case 1
        have "jmax \<noteq> n" using jm by simp
        then have "ring_ok N (cnext s') (cprev s') (m_indices s') jmax (centers s' ! jmax) (ms' ! jmax)"
          using ring_j unfolding msj' c_def by (simp add: cs)
        then show ?thesis unfolding 1 .
      next
        case 2
        have "ring_ok N (cnext s') (cprev s') (m_indices s') n (centers s' ! n) (ms' ! n)"
          using ring_n unfolding msn' cn .
        then show ?thesis unfolding 2 .
      next
        case 3
        then have "ms' ! j' = ms ! j'" "centers s' ! j' = centers s ! j'"
          by (simp_all add: mso cs)
        then show ?thesis using ring_o [OF 3] by simp
      qed
    qed
  qed
  have dist': "dist_ok source N s'"
    unfolding dist_ok_def
  proof (intro allI impI)
    fix x assume x: "x < N"
    show "dist_arr s' ! x = ddist (source ! x) (source ! (centers s' ! (m_indices s' ! x)))"
    proof (cases "x = nc")
      case True
      show ?thesis unfolding True dn0 inc cn by (simp add: ddist_self)
    next
      case False
      have "?idx ! x \<noteq> n" using idn [OF x] by simp
      then show ?thesis using dist x False by (simp add: dx ix cs dist_ok_def)
    qed
  qed
  have nr': "near_ok source N s' n"
    unfolding near_ok_def
  proof (intro allI impI)
    fix x j' assume x: "x < N" and j': "j' < n"
    from nr x j' have old: "dist_arr s ! x \<le> ddist (source ! x) (source ! (centers s ! j'))"
      "j' < ?idx ! x \<longrightarrow> dist_arr s ! x < ddist (source ! x) (source ! (centers s ! j'))"
      by (simp_all add: near_ok_def)
    have cj: "centers s' ! j' = centers s ! j'" using j' by (intro cs) simp
    show "dist_arr s' ! x \<le> ddist (source ! x) (source ! (centers s' ! j'))
        \<and> (j' < m_indices s' ! x \<longrightarrow>
             dist_arr s' ! x < ddist (source ! x) (source ! (centers s' ! j')))"
    proof (cases "x = nc")
      case True
      have "0 < ddist (source ! nc) (source ! (centers s ! j'))"
        using old(1) pos dnc True by simp
      then show ?thesis unfolding True dn0 cj by simp
    next
      case False
      then show ?thesis using old by (simp add: dx ix cj)
    qed
  qed
  have dnn': "done_ok source N s' nc n (ms' ! n)"
    unfolding msn' using ncm(1) by (simp add: done_ok_def rad_ok_def closer_def rn)
  have core': "pass_core source N K s' n nc ms'"
    unfolding pass_core_def using len src n nK cn rings' dist' nr' dnn'
    by (simp add: lengths_ok_def s'_def)
  have pd': "pend_ok source N s' nc jmax j' (ms' ! j')" if j': "j' < n" for j'
  proof (cases "j' = jmax")
    case True
    have "dist_arr s ! nc = ddist (source ! nc) (source ! c)"
      using dist ncm by (simp add: dist_ok_def c_def)
    moreover have "\<forall>k\<in>set (xs @ ys). dist_arr s' ! k = dist_arr s ! k"
      using ncnj by (auto intro!: dx)
    moreover have "\<forall>k\<in>set (xs @ ys). dist_arr s ! k \<le> m_radii s ! jmax"
      using rad jm msj by (simp add: rad_ok_def)
    ultimately show ?thesis
      unfolding True pend_ok_def msj' using pos dnc jm by (simp add: r cs c_def)
  next
    case False
    have o: "x \<noteq> nc" if "x \<in> set (ms ! j')" for x
      using rings_ok_member(2) [OF rings j' that] ncm False by auto
    have "rad_ok N s' j' (ms ! j')"
      using rad j' o by (intro rad_ok_frame [of N s j' "ms ! j'" s']) (simp_all add: r dx)
    then show ?thesis using False j' by (simp add: pend_ok_def mso)
  qed
  have "before_ok source N K s' n nc jmax 0 ms'"
    unfolding before_ok_def using core' jm pd' by simp
  moreover have "same_object s s'" by (simp add: same_object_def s'_def)
  ultimately show ?thesis using pr f(5) by blast
qed

subsection \<open>One iteration of the outer loop\<close>

lemma idxmax_props:
  assumes "lengths_ok N K s" "0 < n" "n \<le> K"
  shows "get_radius_idxmax n s < n"
    and "\<forall>j<n. m_radii s ! j \<le> m_radii s ! get_radius_idxmax n s"
proof -
  let ?xs = "take n (m_radii s)"
  have l: "length ?xs = n" using assms by (simp add: lengths_ok_def)
  then have ne: "?xs \<noteq> []" using assms(2) by auto
  note m = max_element_props [OF ne]
  show lt: "get_radius_idxmax n s < n" using m(1) l by (simp add: get_radius_idxmax_def)
  show "\<forall>j<n. m_radii s ! j \<le> m_radii s ! get_radius_idxmax n s"
    using m(2) l lt by (auto simp: get_radius_idxmax_def)
qed

lemma add_center_reg:
  assumes R: "reg source N K s n ms" and nK: "n < K" and mat: "is_mat source"
    and pos: "0 < m_radii s ! get_radius_idxmax n s"
  shows "\<exists>s' ms'. add_center source n s = Some (Inr s') \<and> reg source N K s' (Suc n) ms'
           \<and> same_object s s' \<and> centers s' = (centers s)[n := far2c s ! get_radius_idxmax n s]"
proof -
  from R have len: "lengths_ok N K s" and n: "0 < n" by (simp_all add: reg_def)
  define jmax where "jmax = get_radius_idxmax n s"
  define nc where "nc = far2c s ! jmax"
  have jm: "jmax < n" using idxmax_props(1) [OF len n] nK by (simp add: jmax_def)
  from promote_step [OF R nK jm pos [folded jmax_def] nc_def]
  obtain s1 ms1 where pr: "promote n nc s = Inr s1"
    and b1: "before_ok source N K s1 n nc jmax 0 ms1"
    and so1: "same_object s s1" and c1: "centers s1 = (centers s)[n := nc]"
    by blast
  from for_j_loop [OF mat b1]
  obtain s' ms' where fj: "for_j source n nc [0..<n] s1 = Some (Inr s')"
    and b': "before_ok source N K s' n nc jmax n ms'"
    and so': "same_object s1 s'" and c': "centers s' = centers s1"
    by blast
  have "add_center source n s = Some (Inr s')"
    using len n nK jm
    by (simp add: add_center_def Let_def jmax_def [symmetric] nc_def [symmetric] pr fj lengths_ok_def)
  moreover have "centers s' = (centers s)[n := far2c s ! get_radius_idxmax n s]"
    using c' c1 by (simp add: nc_def jmax_def)
  ultimately show ?thesis
    using before_ok_done [OF b'] same_object_trans [OF so1 so'] by blast
qed

lemma for_j_skip:
  assumes "\<forall>j\<in>set js. j < length (centers s) \<and> centers s ! j < length source
      \<and> j < length (m_radii s) \<and> m_radii s ! j = 0" "nc < length source"
  shows "for_j source i nc js s = Some (Inr s)"
  using assms
proof (induction js)
  case Nil
  then show ?case by simp
next
  case (Cons j js)
  have "\<not> ddist (source ! (centers s ! j)) (source ! nc) / 4 < 0"
    using ddist_nonneg [of "source ! (centers s ! j)" "source ! nc"] by simp
  then have "prune_cluster source i nc j s = Some (Inr s)"
    using Cons.prems by (simp add: prune_cluster_def Let_def)
  then show ?case using Cons by simp
qed

lemma add_center_weak:
  assumes W: "weak_ok source N K s n" and nK: "n < K"
  shows "\<exists>s'. add_center source n s = Some (Inr s') \<and> weak_ok source N K s' (Suc n)
           \<and> same_object s s'"
proof -
  from W have len: "lengths_ok N K s" and src: "length source = N" and n: "0 < n"
    and bx: "\<forall>k<N. m_indices s ! k < n \<and> cnext s ! k < N \<and> cprev s ! k < N"
    and bj: "\<forall>j<n. far2c s ! j < N \<and> centers s ! j < N \<and> m_radii s ! j = 0"
    by (simp_all add: weak_ok_def)
  have lenN: "length (cnext s) = N" "length (cprev s) = N" "length (m_indices s) = N"
    "length (dist_arr s) = N"
    and lenK: "length (centers s) = K" "length (far2c s) = K" "length (m_radii s) = K"
    using len by (simp_all add: lengths_ok_def)
  define jmax where "jmax = get_radius_idxmax n s"
  define nc where "nc = far2c s ! jmax"
  have jm: "jmax < n" using idxmax_props(1) [OF len n] nK by (simp add: jmax_def)
  have ncN: "nc < N" using bj jm by (simp add: nc_def)
  define s' where "s' = s\<lparr> centers := (centers s)[n := nc], m_radii := (m_radii s)[n := 0],
              dist_arr := (dist_arr s)[nc := 0], m_indices := (m_indices s)[nc := n],
              far2c := (far2c s)[n := nc],
              cnext := (cnext s)[cprev s ! nc := cnext s ! nc, nc := nc],
              cprev := (cprev s)[cnext s ! nc := cprev s ! nc, nc := nc] \<rparr>"
  have pr: "promote n nc s = Inr s'"
    unfolding s'_def using len ncN nK bx
    by (intro promote_closed [where N = N and K = K]) simp_all
  have w': "weak_ok source N K s' (Suc n)"
    unfolding weak_ok_def
  proof (intro conjI allI impI)
    show "lengths_ok N K s'" using len by (simp add: lengths_ok_def s'_def)
    show "m_indices s' ! k < Suc n" if "k < N" for k
      using bx that lenN ncN by (simp add: s'_def nth_list_update less_Suc_eq)
    show "cnext s' ! k < N" if "k < N" for k
      using bx that lenN ncN by (simp add: s'_def nth_list_update)
    show "cprev s' ! k < N" if "k < N" for k
      using bx that lenN ncN by (simp add: s'_def nth_list_update)
    show "far2c s' ! j < N" if "j < Suc n" for j
      using bj that lenK ncN nK by (auto simp: s'_def nth_list_update less_Suc_eq)
    show "centers s' ! j < N" if "j < Suc n" for j
      using bj that lenK ncN nK by (auto simp: s'_def nth_list_update less_Suc_eq)
    show "m_radii s' ! j = 0" if "j < Suc n" for j
      using bj that lenK nK by (auto simp: s'_def nth_list_update less_Suc_eq)
  qed (use src nK in simp_all)
  have "for_j source n nc [0..<n] s' = Some (Inr s')"
  proof (rule for_j_skip)
    show "nc < length source" using ncN src by simp
    show "\<forall>j\<in>set [0..<n]. j < length (centers s') \<and> centers s' ! j < length source
        \<and> j < length (m_radii s') \<and> m_radii s' ! j = 0"
      using w' nK src by (auto simp: weak_ok_def lengths_ok_def)
  qed
  then have "add_center source n s = Some (Inr s')"
    using len n nK jm
    by (simp add: add_center_def Let_def jmax_def [symmetric] nc_def [symmetric] pr lengths_ok_def)
  moreover have "same_object s s'" by (simp add: same_object_def s'_def)
  ultimately show ?thesis using w' by blast
qed

lemma reg_weak:
  assumes R: "reg source N K s n ms" and z: "\<not> 0 < m_radii s ! get_radius_idxmax n s"
  shows "weak_ok source N K s n"
proof -
  from R have len: "lengths_ok N K s" and src: "length source = N" and n: "0 < n" "n \<le> K"
    and rings: "rings_ok N s n ms" and rad: "\<forall>j<n. rad_ok N s j (ms ! j)"
    by (simp_all add: reg_def)
  have "m_radii s ! j = 0" if "j < n" for j
  proof -
    have "m_radii s ! j \<le> m_radii s ! get_radius_idxmax n s"
      using idxmax_props(2) [OF len n] that by simp
    moreover have "0 \<le> m_radii s ! j" using rad that by (simp add: rad_ok_def)
    ultimately show ?thesis using z by simp
  qed
  moreover have "far2c s ! j < N" if "j < n" for j using rad that by (simp add: rad_ok_def)
  moreover have "centers s ! j < N" if "j < n" for j using rings_ok_center(1) [OF rings that] .
  moreover have "m_indices s ! k < n" if "k < N" for k using rings that by (simp add: rings_ok_def)
  ultimately show ?thesis
    unfolding weak_ok_def using len src n rings_ok_bounds [OF rings] by simp
qed

lemma add_center_any:
  assumes P: "pass_ok source N K s n" and nK: "n < K" and mat: "is_mat source"
  shows "\<exists>s'. add_center source n s = Some (Inr s') \<and> pass_ok source N K s' (Suc n)
           \<and> same_object s s'"
proof -
  consider ms where "reg source N K s n ms" "0 < m_radii s ! get_radius_idxmax n s"
    | "weak_ok source N K s n"
    using P reg_weak unfolding pass_ok_def by blast
  then show ?thesis
  proof cases
    case 1
    from add_center_reg [OF 1(1) nK mat 1(2)] show ?thesis unfolding pass_ok_def by blast
  next
    case 2
    from add_center_weak [OF 2 nK] show ?thesis unfolding pass_ok_def by blast
  qed
qed

lemma for_i_any:
  assumes mat: "is_mat source"
  shows "pass_ok source N K s n \<Longrightarrow> n \<le> K \<Longrightarrow>
         \<exists>s'. for_i source [n..<K] s = Some (Inr s') \<and> pass_ok source N K s' K \<and> same_object s s'"
proof (induction "K - n" arbitrary: n s)
  case 0
  then show ?case by (auto simp: same_object_refl)
next
  case (Suc m)
  then have nK: "n < K" by simp
  from add_center_any [OF Suc.prems(1) nK mat]
  obtain s1 where a: "add_center source n s = Some (Inr s1)"
    and p1: "pass_ok source N K s1 (Suc n)" and so1: "same_object s s1"
    by blast
  have "m = K - Suc n" "Suc n \<le> K" using Suc.hyps(2) by simp_all
  from Suc.hyps(1) [OF this(1) p1 this(2)]
  obtain s' where f: "for_i source [Suc n..<K] s1 = Some (Inr s')"
    and p': "pass_ok source N K s' K" and so': "same_object s1 s'"
    by blast
  have "[n..<K] = n # [Suc n..<K]" using nK by (simp add: upt_conv_Cons)
  then have "for_i source [n..<K] s = Some (Inr s')" by (simp add: a f)
  then show ?case using p' same_object_trans [OF so1 so'] by blast
qed

subsection \<open>The constructor as a whole\<close>

lemma reg_pass_ok: "reg source N K s n ms \<Longrightarrow> pass_ok source N K s n"
  unfolding pass_ok_def by blast

lemma pass_ok_facts:
  assumes "pass_ok source N K s n"
  shows "lengths_ok N K s" and "\<forall>k<N. m_indices s ! k < n" and "\<forall>j<n. 0 \<le> m_radii s ! j"
  using assms unfolding pass_ok_def reg_def weak_ok_def rings_ok_def rad_ok_def by auto

lemma count_members:
  assumes "\<forall>i\<in>set is. f i < K"
  shows "(\<Sum>k\<leftarrow>[0..<K]. length (filter (\<lambda>i. f i = k) is)) = length is"
  using assms
proof (induction "is")
  case Nil
  then show ?case by simp
next
  case (Cons i "is")
  have "(\<Sum>k\<leftarrow>[0..<K]. length (filter (\<lambda>i. f i = k) (i # is)))
      = (\<Sum>k\<leftarrow>[0..<K]. (if f i = k then 1 else 0) + length (filter (\<lambda>i. f i = k) is))"
    by (intro arg_cong [where f = sum_list] map_cong) auto
  also have "\<dots> = (\<Sum>k\<leftarrow>[0..<K]. if f i = k then 1 else 0)
      + (\<Sum>k\<leftarrow>[0..<K]. length (filter (\<lambda>i. f i = k) is))"
    by (simp add: sum_list_addf)
  also have "(\<Sum>k\<leftarrow>[0..<K]. if f i = k then 1 else 0) = (1::nat)"
    using Cons.prems by (simp add: interv_sum_list_conv_sum_set_nat)
  finally show ?case using Cons by simp
qed

lemma members_count:
  assumes "\<forall>i<length idx. idx ! i < K"
  shows "(\<Sum>k\<leftarrow>[0..<K]. length (members idx k)) = length idx"
  using count_members [of "[0..<length idx]" "\<lambda>i. idx ! i" K] assms
  by (simp add: members_def)

lemma members_mem: "i \<in> set (members idx k) \<longleftrightarrow> i < length idx \<and> idx ! i = k"
  by (auto simp: members_def)

lemma gonzalez_stages:
  assumes mat: "is_mat source" and K: "1 \<le> K" and ne: "source \<noteq> []"
    and si: "fst si \<longrightarrow> snd si < length source"
    and N: "N = length source" and nc: "nc = (if fst si then snd si else rd mod N)"
  obtains s1 s2 c where
    "reg source N (nat K) s1 1 [[Suc nc..<N] @ [0..<nc]]"
    "centers s1 ! 0 = nc"
    "dist_arr s1 = map (\<lambda>i. ddist (source ! i) (source ! nc)) [0..<N]"
    "m_radii s1 ! 0 = dist_arr s1 ! max_element (dist_arr s1)"
    "for_i source [1..<nat K] s1 = Some (Inr s2)"
    "pass_ok source N (nat K) s2 (nat K)"
    "GonzalezClustering ext source K h eps si rd = Some (Inr c)"
    "m_indices c = m_indices s2"
    "m_radii c = map sqrt (m_radii s2)"
    "m_num_points c = map (\<lambda>k. length (members (m_indices s2) k)) [0..<nat K]"
    "m_centers c = map (\<lambda>k. if members (m_indices s2) k = [] then None
                             else Some (centroid source (members (m_indices s2) k))) [0..<nat K]"
    "m_p_max c = choose_truncation_number (TruncationNumberUpperLimit ext) (n_cols source) h eps 0"
    "m_bandwidth c = h" "m_epsilon c = eps" "m_source c = source"
proof -
  define p where "p = choose_truncation_number (TruncationNumberUpperLimit ext) (n_cols source) h eps 0"
  define c0 where "c0 = \<lparr> m_source = source, m_indices = replicate N 0,
      m_centers = replicate (nat K) (Some (replicate (n_cols source) 0)),
      m_num_points = replicate (nat K) 0, m_radii = replicate (nat K) 0, m_rx = 0,
      m_bandwidth = h, m_epsilon = eps, m_p_max = p,
      m_constant_series = compute_constant_series ext (n_cols source) p \<rparr>"
  define s0 where "s0 = allocate c0 (nat K) N"
  have cl: "Clustering ext source K h eps = Inr c0"
    using K by (simp add: Clustering_def Let_def c0_def p_def n_rows_def N)
  have N0: "0 < N" using ne N by simp
  have ncN: "nc < N" using si N0 by (simp add: nc N)
  have K0: "0 < nat K" using K by simp
  have len0: "lengths_ok N (nat K) s0" by (simp add: lengths_ok_def s0_def allocate_def c0_def)
  have idx0: "m_indices s0 = replicate N 0" by (simp add: s0_def allocate_def c0_def)
  from initialise_reg [OF len0 N [symmetric] K0 ncN idx0]
  obtain s1 where in1: "initialise source nc s0 = Inr s1"
    and r1: "reg source N (nat K) s1 1 [[Suc nc..<N] @ [0..<nc]]"
    and so1: "same_object s0 s1" and c1: "centers s1 ! 0 = nc"
    and d1: "dist_arr s1 = map (\<lambda>i. ddist (source ! i) (source ! nc)) [0..<N]"
    and m1: "m_radii s1 ! 0 = dist_arr s1 ! max_element (dist_arr s1)"
    by blast
  have "1 \<le> nat K" using K by simp
  from for_i_any [OF mat reg_pass_ok [OF r1] this]
  obtain s2 where f2: "for_i source [1..<nat K] s1 = Some (Inr s2)"
    and p2: "pass_ok source N (nat K) s2 (nat K)" and so2: "same_object s1 s2"
    by auto
  note so = same_object_trans [OF so1 so2]
  note pf = pass_ok_facts [OF p2]
  have l2: "length (m_indices s2) = N" using pf(1) by (simp add: lengths_ok_def)
  have np2: "m_num_points s2 = replicate (nat K) 0"
    and cc2: "m_centers s2 = replicate (nat K) (Some (replicate (n_cols source) 0))"
    and o2: "m_p_max s2 = p" "m_bandwidth s2 = h" "m_epsilon s2 = eps" "m_source s2 = source"
    using so by (simp_all add: same_object_def s0_def allocate_def c0_def)
  from finalise_closed [OF mat N [symmetric] l2 pf(2) np2 cc2]
  obtain c where fin: "finalise source s2 = Inr c"
    and fc: "m_indices c = m_indices s2" "m_radii c = map sqrt (m_radii s2)"
      "m_num_points c = map (\<lambda>k. length (members (m_indices s2) k)) [0..<nat K]"
      "m_centers c = map (\<lambda>k. if members (m_indices s2) k = [] then None
                             else Some (centroid source (members (m_indices s2) k))) [0..<nat K]"
      "m_source c = m_source s2" "m_bandwidth c = m_bandwidth s2" "m_epsilon c = m_epsilon s2"
      "m_p_max c = m_p_max s2"
    by blast
  have f2': "for_i source [Suc 0..<nat K] s1 = Some (Inr s2)" using f2 by simp
  have "GonzalezClustering ext source K h eps si rd = Some (Inr c)"
    using N0 by (simp add: GonzalezClustering_def cl Let_def n_rows_def N [symmetric]
        nc [symmetric] s0_def [symmetric] in1 f2' fin)
  then show ?thesis
    using that [OF r1 c1 d1 m1 f2 p2] fc o2 unfolding p_def by simp
qed

subsection \<open>The pass when no centre is chosen at distance zero\<close>

lemma for_i_reg:
  assumes mat: "is_mat source"
    and pos: "\<And>s n ms. reg source N K s n ms \<Longrightarrow> n < K \<Longrightarrow> Q (centers s) n \<Longrightarrow>
                0 < m_radii s ! get_radius_idxmax n s
                \<and> Q ((centers s)[n := far2c s ! get_radius_idxmax n s]) (Suc n)"
  shows "reg source N K s n ms \<Longrightarrow> Q (centers s) n \<Longrightarrow> n \<le> K \<Longrightarrow>
         \<exists>s' ms'. for_i source [n..<K] s = Some (Inr s') \<and> reg source N K s' K ms'
                  \<and> Q (centers s') K"
proof (induction "K - n" arbitrary: n s ms)
  case 0
  then show ?case by auto
next
  case (Suc m)
  then have nK: "n < K" by simp
  note p = pos [OF Suc.prems(1) nK Suc.prems(2)]
  from add_center_reg [OF Suc.prems(1) nK mat conjunct1 [OF p]]
  obtain s1 ms1 where a: "add_center source n s = Some (Inr s1)"
    and r1: "reg source N K s1 (Suc n) ms1"
    and c1: "centers s1 = (centers s)[n := far2c s ! get_radius_idxmax n s]"
    by blast
  have q1: "Q (centers s1) (Suc n)" using p c1 by simp
  have "m = K - Suc n" "Suc n \<le> K" using Suc.hyps(2) by simp_all
  from Suc.hyps(1) [OF this(1) r1 q1 this(2)]
  obtain s' ms' where f: "for_i source [Suc n..<K] s1 = Some (Inr s')"
    and r': "reg source N K s' K ms'" and q': "Q (centers s') K"
    by blast
  have "[n..<K] = n # [Suc n..<K]" using nK by (simp add: upt_conv_Cons)
  then have "for_i source [n..<K] s = Some (Inr s')" by (simp add: a f)
  then show ?case using r' q' by blast
qed

lemma distinct_pos:
  assumes R: "reg source N K s n ms" and mat: "is_mat source" and card: "n < card (set source)"
  shows "0 < m_radii s ! get_radius_idxmax n s"
proof (rule ccontr)
  assume z: "\<not> 0 < m_radii s ! get_radius_idxmax n s"
  from R have src: "length source = N" and rings: "rings_ok N s n ms"
    and dist: "dist_ok source N s" and rad: "\<forall>j<n. rad_ok N s j (ms ! j)"
    by (simp_all add: reg_def)
  from reg_weak [OF R z] have zero: "\<forall>j<n. m_radii s ! j = 0" by (simp add: weak_ok_def)
  have same: "source ! x = source ! (centers s ! (m_indices s ! x))" if x: "x < N" for x
  proof -
    let ?j = "m_indices s ! x"
    note r = rings_ok_in_ring [OF rings x]
    have "dist_arr s ! x = 0"
    proof (cases "x = centers s ! ?j")
      case True
      then show ?thesis using dist_center_zero [OF rings dist r(1)] by simp
    next
      case False
      then have "x \<in> set (ms ! ?j)" using r(2) by simp
      then have "dist_arr s ! x \<le> 0" using rad r(1) zero by (auto simp: rad_ok_def)
      moreover have "0 \<le> dist_arr s ! x" using dist x by (simp add: dist_ok_def ddist_nonneg)
      ultimately show ?thesis by simp
    qed
    then have d: "ddist (source ! x) (source ! (centers s ! ?j)) = 0"
      using dist x by (simp add: dist_ok_def)
    have cN: "centers s ! ?j < N" using rings_ok_center(1) [OF rings r(1)] .
    have "length (source ! x) = length (source ! (centers s ! ?j))"
      using is_mat_row [OF mat] x cN src by simp
    from ddist_zero_eq [OF this d] show ?thesis .
  qed
  have "set source \<subseteq> (\<lambda>j. source ! (centers s ! j)) ` {..<n}"
  proof
    fix r assume "r \<in> set source"
    then obtain x where x: "x < N" "r = source ! x" using src by (auto simp: in_set_conv_nth)
    have "m_indices s ! x < n" using rings_ok_in_ring(1) [OF rings x(1)] .
    then show "r \<in> (\<lambda>j. source ! (centers s ! j)) ` {..<n}"
      using same [OF x(1)] x(2) by auto
  qed
  then have "card (set source) \<le> card ((\<lambda>j. source ! (centers s ! j)) ` {..<n})"
    by (intro card_mono) auto
  also have "\<dots> \<le> n" using card_image_le [of "{..<n}" "\<lambda>j. source ! (centers s ! j)"] by simp
  finally show False using card by simp
qed

lemma reg_bf:
  assumes R: "reg source N K s n ms" and x: "x < N"
  shows "bf_assign source (take n (centers s)) x = m_indices s ! x"
    and "bf_dist source (take n (centers s)) x = dist_arr s ! x"
proof -
  from R have len: "lengths_ok N K s" and n: "0 < n" "n \<le> K" and rings: "rings_ok N s n ms"
    and dist: "dist_ok source N s" and near: "near_ok source N s n"
    by (simp_all add: reg_def)
  let ?xs = "bf_dists source (take n (centers s)) x"
  have l: "length ?xs = n" using len n by (simp add: bf_dists_def lengths_ok_def)
  have nth: "?xs ! i = ddist (source ! x) (source ! (centers s ! i))" if "i < n" for i
    using that len n by (simp add: bf_dists_def lengths_ok_def)
  let ?j = "m_indices s ! x"
  have j: "?j < n" using rings_ok_in_ring(1) [OF rings x] .
  have dj: "dist_arr s ! x = ?xs ! ?j" using dist x nth [OF j] by (simp add: dist_ok_def)
  have a: "\<forall>i<length ?xs. ?xs ! ?j \<le> ?xs ! i"
    unfolding l using near x nth dj [symmetric] by (simp add: near_ok_def)
  have b: "\<forall>i<?j. ?xs ! ?j < ?xs ! i"
    using near x nth dj [symmetric] j by (simp add: near_ok_def)
  have "min_element ?xs = ?j"
    by (rule min_element_unique [OF _ a b]) (simp add: l j)
  then show "bf_assign source (take n (centers s)) x = m_indices s ! x"
    by (simp add: bf_assign_def)
  then show "bf_dist source (take n (centers s)) x = dist_arr s ! x"
    using dj by (simp add: bf_dist_def)
qed

lemma bf_centers_snoc:
  "bf_centers source (Suc m) cs
     = bf_centers source m cs @ [bf_farthest source (bf_centers source m cs)]"
proof (induction m arbitrary: cs)
  case 0
  show ?case by simp
next
  case (Suc m)
  have "bf_centers source (Suc (Suc m)) cs
      = bf_centers source (Suc m) (cs @ [bf_farthest source cs])" by simp
  also have "\<dots> = bf_centers source m (cs @ [bf_farthest source cs])
      @ [bf_farthest source (bf_centers source m (cs @ [bf_farthest source cs]))]"
    by (rule Suc.IH)
  finally show ?case by simp
qed

lemma noties_pos:
  assumes R: "reg source N K s n ms" and nN: "n < N"
    and u: "unique_farthest source (take n (centers s))"
  shows "0 < m_radii s ! get_radius_idxmax n s"
    and "far2c s ! get_radius_idxmax n s = bf_farthest source (take n (centers s))"
proof -
  from R have len: "lengths_ok N K s" and src: "length source = N" and n: "0 < n" "n \<le> K"
    and rings: "rings_ok N s n ms"
    and dist: "dist_ok source N s" and rad: "\<forall>j<n. rad_ok N s j (ms ! j)"
    by (simp_all add: reg_def)
  let ?cs = "take n (centers s)"
  let ?far = "bf_farthest source ?cs"
  let ?jm = "get_radius_idxmax n s"
  have N0: "0 < N" using nN by simp
  have eq: "map (bf_dist source ?cs) [0..<N] = dist_arr s"
    using len reg_bf(2) [OF R] by (intro nth_equalityI) (simp_all add: lengths_ok_def)
  have far: "?far = max_element (dist_arr s)" by (simp add: bf_farthest_def src eq)
  have ne: "dist_arr s \<noteq> []" using len N0 by (auto simp: lengths_ok_def)
  have farN: "?far < N" using max_element_props(1) [OF ne] len far by (simp add: lengths_ok_def)
  have uniq: "x = ?far \<or> dist_arr s ! x < dist_arr s ! ?far" if "x < N" for x
    using u that reg_bf(2) [OF R that] reg_bf(2) [OF R farN]
    by (auto simp: unique_farthest_def list_all_iff src)
  have nonneg: "0 \<le> dist_arr s ! x" if "x < N" for x
    using dist that by (simp add: dist_ok_def ddist_nonneg)
  have "\<exists>x<N. dist_arr s ! x = 0 \<and> x \<noteq> ?far"
  proof (cases "n = 1")
    case False
    then have two: "0 < n" "1 < n" using n by simp_all
    have c0: "centers s ! 0 < N" "m_indices s ! (centers s ! 0) = 0"
      using rings_ok_center [OF rings two(1)] by simp_all
    have c1: "centers s ! 1 < N" "m_indices s ! (centers s ! 1) = 1"
      using rings_ok_center [OF rings two(2)] by simp_all
    have "centers s ! 0 \<noteq> centers s ! 1" using c0(2) c1(2) by auto
    then have "centers s ! 0 \<noteq> ?far \<or> centers s ! 1 \<noteq> ?far" by auto
    then show ?thesis
      using c0(1) c1(1) dist_center_zero [OF rings dist two(1)]
        dist_center_zero [OF rings dist two(2)] by auto
  next
    case True
    then have N2: "1 < N" using nN by simp
    have c0: "centers s ! 0 < N" using rings_ok_center(1) [OF rings n(1)] .
    have d0: "dist_arr s ! (centers s ! 0) = 0" using dist_center_zero [OF rings dist n(1)] .
    show ?thesis
    proof (cases "centers s ! 0 = ?far")
      case False
      then show ?thesis using c0 d0 by auto
    next
      case eqf: True
      have "\<exists>y<N. y \<noteq> ?far"
      proof (cases "?far = 0")
        case True
        then show ?thesis using N2 by (intro exI [of _ 1]) simp
      next
        case False
        then show ?thesis using N2 by (intro exI [of _ 0]) simp
      qed
      then obtain y where y: "y < N" "y \<noteq> ?far" by blast
      from uniq [OF y(1)] y(2) have "dist_arr s ! y < dist_arr s ! ?far" by simp
      then show ?thesis using nonneg [OF y(1)] d0 eqf by simp
    qed
  qed
  then obtain x where x: "x < N" "dist_arr s ! x = 0" "x \<noteq> ?far" by blast
  from uniq [OF x(1)] x have fpos: "0 < dist_arr s ! ?far" by simp
  let ?r = "m_indices s ! ?far"
  note rr = rings_ok_in_ring [OF rings farN]
  have "?far \<noteq> centers s ! ?r" using dist_center_zero [OF rings dist rr(1)] fpos by auto
  then have "?far \<in> set (ms ! ?r)" using rr(2) by simp
  then have "dist_arr s ! ?far \<le> m_radii s ! ?r" using rad rr(1) by (auto simp: rad_ok_def)
  also have "\<dots> \<le> m_radii s ! ?jm" using idxmax_props(2) [OF len n] rr(1) by simp
  finally have le: "dist_arr s ! ?far \<le> m_radii s ! ?jm" .
  then show pos: "0 < m_radii s ! ?jm" using fpos by simp
  have jm: "?jm < n" using idxmax_props(1) [OF len n] .
  from rad jm pos have f: "far2c s ! ?jm < N" "dist_arr s ! (far2c s ! ?jm) = m_radii s ! ?jm"
    by (auto simp: rad_ok_def)
  from uniq [OF f(1)] f(2) le show "far2c s ! ?jm = ?far" by simp
qed

subsection \<open>Point sets on which the arithmetic of the code is exact\<close>

lemma square_diff_bound:
  fixes a b :: real
  shows "(a - b)\<^sup>2 \<le> 2 * a\<^sup>2 + 2 * b\<^sup>2"
proof -
  have "(a - b)\<^sup>2 + (a + b)\<^sup>2 = 2 * a\<^sup>2 + 2 * b\<^sup>2"
    by (simp add: power2_eq_square algebra_simps)
  moreover have "0 \<le> (a + b)\<^sup>2" by simp
  ultimately show ?thesis by linarith
qed

lemma ddist_int_bound:
  assumes "length x = length y"
    and "\<forall>a\<in>set x. a \<in> \<int> \<and> a\<^sup>2 \<le> B" and "\<forall>b\<in>set y. b \<in> \<int> \<and> b\<^sup>2 \<le> B"
  shows "ddist x y \<in> \<int> \<and> ddist x y \<le> real (length x) * (4 * B)"
  using assms
proof (induction x y rule: list_induct2)
  case Nil
  then show ?case by (simp add: ddist_def)
next
  case (Cons a x b y)
  then have IH: "ddist x y \<in> \<int>" "ddist x y \<le> real (length x) * (4 * B)"
    by (simp_all add: ddist_def)
  have ab: "a \<in> \<int>" "b \<in> \<int>" "a\<^sup>2 \<le> B" "b\<^sup>2 \<le> B" using Cons.prems by simp_all
  have e: "ddist (a # x) (b # y) = (a - b)\<^sup>2 + ddist x y" by (simp add: ddist_def)
  have "(a - b)\<^sup>2 \<in> \<int>" using ab(1,2) by (intro Ints_power Ints_diff)
  then have i: "ddist (a # x) (b # y) \<in> \<int>" unfolding e using IH(1) by (rule Ints_add)
  have "(a - b)\<^sup>2 \<le> 4 * B" using square_diff_bound [of a b] ab(3,4) by linarith
  then have "ddist (a # x) (b # y) \<le> real (length (a # x)) * (4 * B)"
    unfolding e using IH(2) by (simp add: algebra_simps)
  then show ?case using i by simp
qed

text \<open>On such a point set every squared distance is an integer of at most \<open>2\<^sup>5\<^sup>3\<close>, which
  a \<^verbatim>\<open>double\<close> holds exactly, as it does every partial sum and the quarter of it.\<close>

lemma exact_ddist:
  assumes ex: "exact_input source" and mat: "is_mat source"
    and i: "i < length source" and j: "j < length source"
  shows "ddist (source ! i) (source ! j) \<in> \<int> \<and> ddist (source ! i) (source ! j) \<le> 2 ^ 53"
proof (cases "n_cols source = 0")
  case True
  then have "source ! i = []" using is_mat_row [OF mat i] by simp
  then show ?thesis by (simp add: ddist_def)
next
  case False
  let ?d = "real (n_cols source)"
  let ?B = "2 ^ 53 / (4 * ?d)"
  have d: "0 < ?d" using False by simp
  have row: "\<forall>a\<in>set (source ! k). a \<in> \<int> \<and> a\<^sup>2 \<le> ?B" if "k < length source" for k
  proof
    fix a assume "a \<in> set (source ! k)"
    then have "a \<in> \<int> \<and> 4 * ?d * a\<^sup>2 \<le> 2 ^ 53"
      using ex that by (auto simp: exact_input_def list_all_iff)
    then show "a \<in> \<int> \<and> a\<^sup>2 \<le> ?B" using d by (simp add: field_simps)
  qed
  have l: "length (source ! i) = length (source ! j)"
    using is_mat_row [OF mat i] is_mat_row [OF mat j] by simp
  from ddist_int_bound [OF l row [OF i] row [OF j]]
  have "ddist (source ! i) (source ! j) \<in> \<int>"
    and "ddist (source ! i) (source ! j) \<le> real (length (source ! i)) * (4 * ?B)"
    by simp_all
  moreover have "real (length (source ! i)) * (4 * ?B) = 2 ^ 53"
    using is_mat_row [OF mat i] d by simp
  ultimately show ?thesis by simp
qed

subsection \<open>The outer loop in parts\<close>

lemma for_i_append:
  "for_i source (xs @ ys) s =
     (case for_i source xs s of Some (Inr s') \<Rightarrow> for_i source ys s' | r \<Rightarrow> r)"
proof (induction xs arbitrary: s)
  case Nil
  show ?case by simp
next
  case (Cons x xs)
  show ?case
  proof (cases "add_center source x s")
    case None
    then show ?thesis by simp
  next
    case (Some r)
    then show ?thesis by (cases r) (simp_all add: Cons)
  qed
qed

lemma for_i_reg_upto:
  assumes mat: "is_mat source"
    and pos: "\<And>s n ms. reg source N K s n ms \<Longrightarrow> n < K \<Longrightarrow> Q (centers s) n \<Longrightarrow>
                0 < m_radii s ! get_radius_idxmax n s
                \<and> Q ((centers s)[n := far2c s ! get_radius_idxmax n s]) (Suc n)"
  shows "reg source N K s n ms \<Longrightarrow> Q (centers s) n \<Longrightarrow> n \<le> m \<Longrightarrow> m \<le> K \<Longrightarrow>
         \<exists>s' ms'. for_i source [n..<m] s = Some (Inr s') \<and> reg source N K s' m ms'
                  \<and> Q (centers s') m"
proof (induction "m - n" arbitrary: n s ms)
  case 0
  then show ?case by auto
next
  case (Suc d)
  then have nm: "n < m" and nK: "n < K" by simp_all
  note p = pos [OF Suc.prems(1) nK Suc.prems(2)]
  from add_center_reg [OF Suc.prems(1) nK mat conjunct1 [OF p]]
  obtain s1 ms1 where a: "add_center source n s = Some (Inr s1)"
    and r1: "reg source N K s1 (Suc n) ms1"
    and c1: "centers s1 = (centers s)[n := far2c s ! get_radius_idxmax n s]"
    by blast
  have q1: "Q (centers s1) (Suc n)" using p c1 by simp
  have "d = m - Suc n" "Suc n \<le> m" using Suc.hyps(2) by simp_all
  from Suc.hyps(1) [OF this(1) r1 q1 this(2) Suc.prems(4)]
  obtain s' ms' where f: "for_i source [Suc n..<m] s1 = Some (Inr s')"
    and r': "reg source N K s' m ms'" and q': "Q (centers s') m"
    by blast
  have "[n..<m] = n # [Suc n..<m]" using nm by (simp add: upt_conv_Cons)
  then have "for_i source [n..<m] s = Some (Inr s')" by (simp add: a f)
  then show ?case using r' q' by blast
qed

lemma GonzalezClustering_pass:
  "GonzalezClustering ext source K h eps si rd =
     (case clustering_pass ext source K h eps si rd (nat K) of
        None \<Rightarrow> None
      | Some (Inl e) \<Rightarrow> Some (Inl e)
      | Some (Inr s) \<Rightarrow> Some (finalise source s))"
  by (simp add: GonzalezClustering_def clustering_pass_def Let_def split: sum.splits)

lemma pass_stages:
  assumes mat: "is_mat source" and K: "1 \<le> K" and ne: "source \<noteq> []"
    and si: "fst si \<longrightarrow> snd si < length source"
    and N: "N = length source" and nc: "nc = (if fst si then snd si else rd mod N)"
  shows "\<exists>s1 s2 c. reg source N (nat K) s1 1 [[Suc nc..<N] @ [0..<nc]] \<and> centers s1 ! 0 = nc
           \<and> (\<forall>n. clustering_pass ext source K h eps si rd n = for_i source [1..<n] s1)
           \<and> for_i source [1..<nat K] s1 = Some (Inr s2)
           \<and> GonzalezClustering ext source K h eps si rd = Some (Inr c)
           \<and> m_indices c = m_indices s2
           \<and> m_num_points c = map (\<lambda>k. length (members (m_indices s2) k)) [0..<nat K]
           \<and> m_centers c = map (\<lambda>k. if members (m_indices s2) k = [] then None
                  else Some (centroid source (members (m_indices s2) k))) [0..<nat K]"
proof -
  define p where "p = choose_truncation_number (TruncationNumberUpperLimit ext) (n_cols source) h eps 0"
  define c0 where "c0 = \<lparr> m_source = source, m_indices = replicate N 0,
      m_centers = replicate (nat K) (Some (replicate (n_cols source) 0)),
      m_num_points = replicate (nat K) 0, m_radii = replicate (nat K) 0, m_rx = 0,
      m_bandwidth = h, m_epsilon = eps, m_p_max = p,
      m_constant_series = compute_constant_series ext (n_cols source) p \<rparr>"
  define s0 where "s0 = allocate c0 (nat K) N"
  have cl: "Clustering ext source K h eps = Inr c0"
    using K by (simp add: Clustering_def Let_def c0_def p_def n_rows_def N)
  have N0: "0 < N" using ne N by simp
  have ncN: "nc < N" using si N0 by (simp add: nc N)
  have K0: "0 < nat K" using K by simp
  have len0: "lengths_ok N (nat K) s0" by (simp add: lengths_ok_def s0_def allocate_def c0_def)
  have idx0: "m_indices s0 = replicate N 0" by (simp add: s0_def allocate_def c0_def)
  from initialise_reg [OF len0 N [symmetric] K0 ncN idx0]
  obtain s1 where in1: "initialise source nc s0 = Inr s1"
    and r1: "reg source N (nat K) s1 1 [[Suc nc..<N] @ [0..<nc]]"
    and so1: "same_object s0 s1" and c1: "centers s1 ! 0 = nc"
    by blast
  have pass: "clustering_pass ext source K h eps si rd n = for_i source [1..<n] s1" for n
    using N0 by (simp add: clustering_pass_def cl Let_def n_rows_def N [symmetric]
        nc [symmetric] s0_def [symmetric] in1)
  have "1 \<le> nat K" using K by simp
  from for_i_any [OF mat reg_pass_ok [OF r1] this]
  obtain s2 where f2: "for_i source [1..<nat K] s1 = Some (Inr s2)"
    and p2: "pass_ok source N (nat K) s2 (nat K)" and so2: "same_object s1 s2"
    by auto
  note so = same_object_trans [OF so1 so2]
  note pf = pass_ok_facts [OF p2]
  have l2: "length (m_indices s2) = N" using pf(1) by (simp add: lengths_ok_def)
  have np2: "m_num_points s2 = replicate (nat K) 0"
    and cc2: "m_centers s2 = replicate (nat K) (Some (replicate (n_cols source) 0))"
    using so by (simp_all add: same_object_def s0_def allocate_def c0_def)
  from finalise_closed [OF mat N [symmetric] l2 pf(2) np2 cc2]
  obtain c where fin: "finalise source s2 = Inr c"
    and fc: "m_indices c = m_indices s2"
      "m_num_points c = map (\<lambda>k. length (members (m_indices s2) k)) [0..<nat K]"
      "m_centers c = map (\<lambda>k. if members (m_indices s2) k = [] then None
                             else Some (centroid source (members (m_indices s2) k))) [0..<nat K]"
    by blast
  have g: "GonzalezClustering ext source K h eps si rd = Some (Inr c)"
    unfolding GonzalezClustering_pass pass using f2 fin by simp
  show ?thesis
    using r1 c1 pass f2 g fc by blast
qed

section \<open>Properties of the constructed clustering\<close>

text \<open>
  In the theorems below \<open>N\<close> is the number of rows of \<open>source\<close>, the starting index is
  either explicit and below \<open>N\<close> or drawn from the random device, and the point set is
  a matrix: all rows have the same length. The constructor then returns for every
  \<open>K\<close> of at least 1: the walk over a cluster always comes back to the head of the ring.
\<close>

lemma members_all:
  assumes "\<forall>i<length idx. idx ! i = k"
  shows "members idx k = [0..<length idx]"
  unfolding members_def using assms by (simp add: filter_id_conv)

lemma singleton_list: "length xs = Suc 0 \<Longrightarrow> xs = [xs ! 0]"
  by (cases xs) simp_all

text \<open>Unfolding the constructor step by step on a concrete point set.\<close>

lemmas eval_defs = GonzalezClustering_def Clustering_def choose_truncation_number_rx0 allocate_def
  initialise_def n_rows_def n_cols_def max_element_def get_radius_idxmax_def get_max_radius_def
  add_center_def promote_def prune_cluster_def scan.simps scan_body_def move_member_def
  keep_member_def finalise_def divide_row_def ddist_def Let_def upt_conv_Cons eval_nat_numeral

lemmas bf_eval_defs = brute_force_def bf_assign_def bf_dists_def bf_dist_def bf_farthest_def
  min_element_def max_element_def ddist_def upt_conv_Cons Let_def eval_nat_numeral

text \<open>The constructor does not check its arguments; it fails only where an access to a
  vector is out of range, where the size of a vector is negative, or where the random
  device is reduced modulo zero.\<close>

lemma negative_K_fails:
  "K < 0 \<Longrightarrow> GonzalezClustering ext source K h eps si rd = Some (Inl AllocationFailure)"
  by (simp add: GonzalezClustering_def Clustering_def)

lemma zero_K_fails:
  "fst si \<or> source \<noteq> [] \<Longrightarrow>
   GonzalezClustering ext source 0 h eps si rd = Some (Inl IndexOutOfBounds)"
  by (auto simp: GonzalezClustering_def Clustering_def Let_def allocate_def initialise_def
      n_rows_def)

lemma no_points_fails:
  "0 \<le> K \<Longrightarrow> GonzalezClustering ext [] K h eps (True, i) rd = Some (Inl IndexOutOfBounds)"
  by (simp add: GonzalezClustering_def Clustering_def Let_def allocate_def initialise_def
      n_rows_def)

lemma starting_index_out_of_range_fails:
  assumes "0 \<le> K" "length source \<le> i"
  shows "GonzalezClustering ext source K h eps (True, i) rd = Some (Inl IndexOutOfBounds)"
proof (cases source)
  case Nil
  then show ?thesis using no_points_fails [OF assms(1)] by simp
next
  case (Cons r rs)
  then have "[0..<length source] = 0 # [1..<length source]"
    by (simp add: upt_conv_Cons del: upt_Suc)
  then have "init_loop source i [0..<length source] s = Inl IndexOutOfBounds" for s
    using assms(2) Cons by simp
  then show ?thesis
    using assms(1) by (simp add: GonzalezClustering_def Clustering_def Let_def initialise_def
        n_rows_def)
qed

text \<open>
  Claim C5: for every valid input (\<open>N \<ge> K \<ge> 1\<close>) the constructor of
  \<^verbatim>\<open>GonzalezClustering\<close> returns, and then every point index below \<open>N\<close> has an
  assignment below \<open>K\<close>, the per-cluster counts sum to \<open>N\<close>, and every stored cluster
  radius is at least 0.
\<close>

theorem clustering_invariants:
  assumes mat: "is_mat source" and K: "1 \<le> K" "K \<le> int (length source)"
    and si: "fst si \<longrightarrow> snd si < length source"
  shows "\<exists>c. GonzalezClustering ext source K h eps si rd = Some (Inr c)
           \<and> length (m_indices c) = length source
           \<and> (\<forall>i<length source. m_indices c ! i < nat K)
           \<and> length (m_num_points c) = nat K
           \<and> sum_list (m_num_points c) = length source
           \<and> length (m_radii c) = nat K
           \<and> (\<forall>j<nat K. 0 \<le> m_radii c ! j)"
proof -
  have ne: "source \<noteq> []" using K by auto
  from gonzalez_stages [where ext = ext and h = h and eps = eps and rd = rd, OF mat K(1) ne si refl refl]
  obtain s2 c where p2: "pass_ok source (length source) (nat K) s2 (nat K)"
    and g: "GonzalezClustering ext source K h eps si rd = Some (Inr c)"
    and c: "m_indices c = m_indices s2" "m_radii c = map sqrt (m_radii s2)"
      "m_num_points c = map (\<lambda>k. length (members (m_indices s2) k)) [0..<nat K]"
    by blast
  note pf = pass_ok_facts [OF p2]
  have l: "length (m_indices s2) = length source" "length (m_radii s2) = nat K"
    using pf(1) by (simp_all add: lengths_ok_def)
  have "sum_list (m_num_points c) = length source"
    using members_count [of "m_indices s2" "nat K"] pf(2) l by (simp add: c)
  moreover have "0 \<le> m_radii c ! j" if "j < nat K" for j
    using pf(3) that l by (simp add: c)
  ultimately show ?thesis using g pf(2) l by (simp add: c)
qed

theorem clustering_invariants_witness:
  "\<exists>c. GonzalezClustering example_externals [[0], [3], [10]] 2 1 (1/2) (True, 0) 0 = Some (Inr c)
       \<and> length (m_indices c) = 3 \<and> (\<forall>i<3. m_indices c ! i < 2)
       \<and> length (m_num_points c) = 2 \<and> sum_list (m_num_points c) = 3
       \<and> length (m_radii c) = 2 \<and> (\<forall>j<2. 0 \<le> m_radii c ! j)"
  using clustering_invariants [where source = "[[0], [3], [10]]" and K = 2 and si = "(True, 0)"
      and ext = example_externals and h = 1 and eps = "1/2" and rd = 0]
  by (simp add: is_mat_def n_cols_def eval_nat_numeral)

text \<open>
  Claim C4 as stated: for every cluster \<open>k\<close> below \<open>K\<close> the stored centre row is the
  arithmetic mean of the coordinates of the points finally assigned to \<open>k\<close>. For three
  equal points and \<open>K = 3\<close> no point is finally assigned to cluster 1: its count is 0,
  and its centre row, the zero row of sums divided by that count, holds no numbers
  and is the mean of no points.
\<close>

theorem empty_cluster_center_counterexample:
  "map_option (map_sum id (\<lambda>c. (m_indices c, m_num_points c, m_centers c)))
     (GonzalezClustering example_externals [[5], [5], [5]] 3 1 (1/2) (True, 0) 0)
     = Some (Inr ([2, 0, 0], [2, 0, 1], [Some [5], None, Some [5]]))"
  by (simp add: eval_defs)

text \<open>
  Claim C4, amended: after the constructor finishes, for every cluster \<open>k\<close> below \<open>K\<close> to
  which a point is finally assigned the stored centre row \<open>k\<close> is the arithmetic mean of
  the coordinates of the points finally assigned to \<open>k\<close>, computed from these points and
  not taken from the seed point chosen for the cluster. The row of a cluster to which no
  point is assigned is zero divided by zero.
\<close>

theorem centers_are_centroids:
  assumes mat: "is_mat source" and K: "1 \<le> K" and ne: "source \<noteq> []"
    and si: "fst si \<longrightarrow> snd si < length source"
  shows "\<exists>c. GonzalezClustering ext source K h eps si rd = Some (Inr c)
           \<and> length (m_centers c) = nat K
           \<and> (\<forall>k<nat K. m_centers c ! k =
                 (if members (m_indices c) k = [] then None
                  else Some (centroid source (members (m_indices c) k))))"
proof -
  show ?thesis
  proof (rule gonzalez_stages [where ext = ext and h = h and eps = eps and rd = rd, OF mat K ne si refl refl])
    fix s2 c
    assume g: "GonzalezClustering ext source K h eps si rd = Some (Inr c)"
    and c: "m_indices c = m_indices s2"
      "m_centers c = map (\<lambda>k. if members (m_indices s2) k = [] then None
                             else Some (centroid source (members (m_indices s2) k))) [0..<nat K]"
    show ?thesis using g by (simp add: c)
  qed
qed

theorem centers_are_centroids_witness:
  "\<exists>c. GonzalezClustering example_externals [[0], [3], [10]] 2 1 (1/2) (True, 0) 0 = Some (Inr c)
       \<and> length (m_centers c) = 2
       \<and> (\<forall>k<2. m_centers c ! k =
             (if members (m_indices c) k = [] then None
              else Some (centroid [[0], [3], [10]] (members (m_indices c) k))))"
  using centers_are_centroids [where source = "[[0], [3], [10]]" and K = 2 and si = "(True, 0)"
      and ext = example_externals and h = 1 and eps = "1/2" and rd = 0]
  by (simp add: is_mat_def n_cols_def eval_nat_numeral)

text \<open>
  Claim C8 as stated: for \<open>K = 1\<close> the final radius is the maximum distance from the
  centroid to any point. For the two points 0 and 2 on a line and the starting index 0,
  the centroid is 1 and both points are at distance 1 from it, but the stored radius
  is 2, the distance of the point 2 from the starting point.
\<close>

theorem radius_from_seed_counterexample:
  "map_option (map_sum id (\<lambda>c. (m_centers c, m_radii c)))
     (GonzalezClustering example_externals [[0], [2]] 1 1 (1/2) (True, 0) 0)
     = Some (Inr ([Some [1]], [2]))
   \<and> sqrt (ddist [0] [1]) = 1 \<and> sqrt (ddist [2] [1]) = 1"
  by (simp add: eval_defs)

text \<open>
  Claim C8, amended: when \<open>K = 1\<close>, the centre of the single cluster is the centroid of
  all \<open>N\<close> points, and its final (square-rooted) radius is the maximum distance from the
  starting point, not from the centroid, to any point.
\<close>

theorem single_cluster_center_and_radius:
  assumes mat: "is_mat source" and ne: "source \<noteq> []"
    and si: "fst si \<longrightarrow> snd si < length source"
  shows "\<exists>c r. GonzalezClustering ext source 1 h eps si rd = Some (Inr c)
           \<and> m_centers c = [Some (centroid source [0..<length source])]
           \<and> m_radii c = [r]
           \<and> (\<forall>i<length source.
                 sqrt (ddist (source ! i)
                   (source ! (if fst si then snd si else rd mod length source))) \<le> r)
           \<and> (\<exists>i<length source.
                 r = sqrt (ddist (source ! i)
                   (source ! (if fst si then snd si else rd mod length source))))"
proof -
  let ?N = "length source"
  let ?nc = "if fst si then snd si else rd mod ?N"
  from gonzalez_stages [where ext = ext and h = h and eps = eps and rd = rd, OF mat order_refl ne si refl refl]
  obtain s1 s2 c where r1: "reg source ?N (nat 1) s1 1 [[Suc ?nc..<?N] @ [0..<?nc]]"
    and d1: "dist_arr s1 = map (\<lambda>i. ddist (source ! i) (source ! ?nc)) [0..<?N]"
    and m1: "m_radii s1 ! 0 = dist_arr s1 ! max_element (dist_arr s1)"
    and f: "for_i source [1..<nat 1] s1 = Some (Inr s2)"
    and p2: "pass_ok source ?N (nat 1) s2 (nat 1)"
    and g: "GonzalezClustering ext source 1 h eps si rd = Some (Inr c)"
    and c: "m_indices c = m_indices s2" "m_radii c = map sqrt (m_radii s2)"
      "m_centers c = map (\<lambda>k. if members (m_indices s2) k = [] then None
                             else Some (centroid source (members (m_indices s2) k))) [0..<nat 1]"
    by blast
  have s2: "s2 = s1" using f by simp
  note pf = pass_ok_facts [OF p2]
  have l: "length (m_indices s2) = ?N" "length (m_radii s2) = 1"
    using pf(1) by (simp_all add: lengths_ok_def)
  have "\<forall>i<length (m_indices s2). m_indices s2 ! i = 0" using pf(2) l by simp
  from members_all [OF this] have mem: "members (m_indices s2) 0 = [0..<?N]" by (simp add: l)
  have cen: "m_centers c = [Some (centroid source [0..<?N])]" using ne by (simp add: c mem)
  let ?d = "dist_arr s1"
  let ?me = "max_element ?d"
  have dne: "?d \<noteq> []" using ne by (simp add: d1)
  note mp = max_element_props [OF dne]
  have me: "?me < ?N" using mp(1) by (simp add: d1)
  have nth: "?d ! i = ddist (source ! i) (source ! ?nc)" if "i < ?N" for i
    using that by (simp add: d1)
  have rad: "m_radii c = [sqrt (?d ! ?me)]"
    using singleton_list [of "m_radii s2"] l(2) m1 by (simp add: c s2)
  have le: "sqrt (ddist (source ! i) (source ! ?nc)) \<le> sqrt (?d ! ?me)" if "i < ?N" for i
    using mp(2) that nth [OF that] by (simp add: d1)
  have "sqrt (?d ! ?me) = sqrt (ddist (source ! ?me) (source ! ?nc))" using nth [OF me] by simp
  then show ?thesis using g cen rad le me by blast
qed

theorem single_cluster_witness:
  "\<exists>c r. GonzalezClustering example_externals [[0], [2]] 1 1 (1/2) (True, 0) 0 = Some (Inr c)
       \<and> m_centers c = [Some (centroid [[0], [2]] [0..<2])]
       \<and> m_radii c = [r]
       \<and> (\<forall>i<2. sqrt (ddist ([[0], [2]] ! i) ([[0], [2]] ! 0)) \<le> r)
       \<and> (\<exists>i<2. r = sqrt (ddist ([[0], [2]] ! i) ([[0], [2]] ! 0)))"
  using single_cluster_center_and_radius [where source = "[[0], [2]]" and si = "(True, 0)"
      and ext = example_externals and h = 1 and eps = "1/2" and rd = 0]
  by (simp add: is_mat_def n_cols_def eval_nat_numeral)

text \<open>The constructor accepts every bandwidth, every tolerance and every number of
  clusters from 1 on.\<close>

lemma accepts_every_bandwidth_and_epsilon:
  assumes mat: "is_mat source" and K: "1 \<le> K" and ne: "source \<noteq> []"
    and si: "fst si \<longrightarrow> snd si < length source"
  shows "\<exists>c. GonzalezClustering ext source K h eps si rd = Some (Inr c)
           \<and> m_bandwidth c = h \<and> m_epsilon c = eps \<and> length (m_centers c) = nat K
           \<and> length (m_indices c) = length source"
proof (rule gonzalez_stages [where ext = ext and h = h and eps = eps and rd = rd, OF mat K ne si refl refl])
  fix s2 c
  assume g: "GonzalezClustering ext source K h eps si rd = Some (Inr c)"
    and p2: "pass_ok source (length source) (nat K) s2 (nat K)"
    and c: "m_bandwidth c = h" "m_epsilon c = eps" "m_indices c = m_indices s2"
      "m_centers c = map (\<lambda>k. if members (m_indices s2) k = [] then None
                             else Some (centroid source (members (m_indices s2) k))) [0..<nat K]"
  have "length (m_indices s2) = length source"
    using pass_ok_facts(1) [OF p2] by (simp add: lengths_ok_def)
  then show ?thesis using g by (simp add: c)
qed

text \<open>
  Claim C3 as stated: construction with more clusters than points, a bandwidth of at
  most 0 or a tolerance outside (0, 1) fails with an invalid-argument error and
  populates no cluster state. For the single point 5, two clusters, the bandwidth -1
  and the tolerance 2 the constructor returns an object: the point is assigned to
  cluster 1, and cluster 0 has no point.
\<close>

theorem invalid_arguments_accepted_counterexample:
  "map_option (map_sum id (\<lambda>c. (m_bandwidth c, m_epsilon c, m_indices c, m_num_points c,
                                 m_centers c, m_radii c)))
     (GonzalezClustering example_externals [[5]] 2 (- 1) 2 (True, 0) 0)
     = Some (Inr (- 1, 2, [1], [0, 1], [None, Some [5]], [0, 0]))"
  by (simp add: eval_defs)

text \<open>
  Claim C3, amended: the constructors validate no argument. With \<open>K\<close> of at least 1, a
  point set that is not empty and a starting index that is drawn at random or explicit
  and in range, construction succeeds and populates the object for every bandwidth and
  every tolerance, also when \<open>K\<close> exceeds the number of points. A negative \<open>K\<close> fails when
  the vectors are allocated; \<open>K = 0\<close> and an explicit starting index out of range, which
  every explicit index is when there are no points, fail at the first access to a vector
  that is out of range. No object is returned then.
\<close>

theorem constructor_validates_no_argument:
  "(is_mat source \<and> source \<noteq> [] \<and> 1 \<le> K \<and> (fst si \<longrightarrow> snd si < length source) \<longrightarrow>
      (\<exists>c. GonzalezClustering ext source K h eps si rd = Some (Inr c)
          \<and> m_bandwidth c = h \<and> m_epsilon c = eps \<and> length (m_centers c) = nat K
          \<and> length (m_indices c) = length source))
   \<and> (K < 0 \<longrightarrow> GonzalezClustering ext source K h eps si rd = Some (Inl AllocationFailure))
   \<and> (K = 0 \<and> (fst si \<or> source \<noteq> []) \<longrightarrow>
        GonzalezClustering ext source K h eps si rd = Some (Inl IndexOutOfBounds))
   \<and> (0 \<le> K \<and> fst si \<and> length source \<le> snd si \<longrightarrow>
        GonzalezClustering ext source K h eps si rd = Some (Inl IndexOutOfBounds))"
proof (intro conjI impI)
  assume "is_mat source \<and> source \<noteq> [] \<and> 1 \<le> K \<and> (fst si \<longrightarrow> snd si < length source)"
  then show "\<exists>c. GonzalezClustering ext source K h eps si rd = Some (Inr c)
          \<and> m_bandwidth c = h \<and> m_epsilon c = eps \<and> length (m_centers c) = nat K
          \<and> length (m_indices c) = length source"
    using accepts_every_bandwidth_and_epsilon [of source K si ext h eps rd] by blast
next
  assume "K < 0"
  then show "GonzalezClustering ext source K h eps si rd = Some (Inl AllocationFailure)"
    by (rule negative_K_fails)
next
  assume "K = 0 \<and> (fst si \<or> source \<noteq> [])"
  then show "GonzalezClustering ext source K h eps si rd = Some (Inl IndexOutOfBounds)"
    using zero_K_fails [of si source ext h eps rd] by simp
next
  assume a: "0 \<le> K \<and> fst si \<and> length source \<le> snd si"
  then have "si = (True, snd si)" by (cases si) simp
  then show "GonzalezClustering ext source K h eps si rd = Some (Inl IndexOutOfBounds)"
    using starting_index_out_of_range_fails [of K source "snd si" ext h eps rd] a by simp
qed

theorem constructor_validates_no_argument_witness:
  "(\<exists>c. GonzalezClustering example_externals [[0], [2]] 3 (- 1) 2 (True, 0) 0 = Some (Inr c)
       \<and> m_bandwidth c = - 1 \<and> m_epsilon c = 2 \<and> length (m_centers c) = 3
       \<and> length (m_indices c) = 2)
   \<and> GonzalezClustering example_externals [[0], [2]] (- 1) 1 (1/2) (True, 0) 0
       = Some (Inl AllocationFailure)
   \<and> GonzalezClustering example_externals [[0], [2]] 0 1 (1/2) (True, 0) 0
       = Some (Inl IndexOutOfBounds)
   \<and> GonzalezClustering example_externals [[0], [2]] 1 1 (1/2) (True, 2) 0
       = Some (Inl IndexOutOfBounds)"
  using constructor_validates_no_argument [where source = "[[0], [2]]" and K = 3
      and si = "(True, 0)" and ext = example_externals and h = "- 1" and eps = 2 and rd = 0]
    constructor_validates_no_argument [where source = "[[0], [2]]" and K = "- 1"
      and si = "(True, 0)" and ext = example_externals and h = 1 and eps = "1/2" and rd = 0]
    constructor_validates_no_argument [where source = "[[0], [2]]" and K = 0
      and si = "(True, 0)" and ext = example_externals and h = 1 and eps = "1/2" and rd = 0]
    constructor_validates_no_argument [where source = "[[0], [2]]" and K = 1
      and si = "(True, 2)" and ext = example_externals and h = 1 and eps = "1/2" and rd = 0]
  by (simp add: is_mat_def n_cols_def eval_nat_numeral)

text \<open>
  Claim C10 as stated: for every valid input (\<open>N \<ge> K \<ge> 1\<close>) every seed point stays in
  the cluster it seeded, every count is at least 1 and no centroid is a quotient by zero.
  For three equal points and \<open>K = 3\<close> every radius is zero, so the point 0 is chosen as
  the seed of each cluster in turn: it ends in cluster 2, cluster 1 has no member
  and its centre row is zero divided by zero.
\<close>

theorem duplicate_points_counterexample:
  "map_option (map_sum id (\<lambda>c. (m_indices c, m_num_points c, m_centers c)))
     (GonzalezClustering example_externals [[0], [0], [0]] 3 1 (1/2) (True, 0) 0)
     = Some (Inr ([2, 0, 0], [2, 0, 1], [Some [0], None, Some [0]]))
   \<and> map_option (map_sum id centers)
       (clustering_pass example_externals [[0], [0], [0]] 3 1 (1/2) (True, 0) 0 3)
     = Some (Inr [0, 0, 0])
   \<and> exact_input [[0], [0], [0]]"
  by (simp add: eval_defs clustering_pass_def exact_input_def)

text \<open>
  Claim C10, amended: when the point set has at least \<open>K\<close> different points, \<open>K \<ge> 1\<close>, and
  its squared distances are computed exactly, each of the \<open>K\<close> seed points the pass
  chooses (the entries of \<^verbatim>\<open>centers\<close>, the first of which is the starting point) is
  assigned to the cluster it seeded after every iteration of the loop over the new
  clusters from the one that chose it on, and when the constructor finishes; so every
  per-cluster count is at least 1 and no centre row is a quotient by zero.
\<close>

theorem seeds_keep_their_clusters:
  assumes mat: "is_mat source" and ex: "exact_input source"
    and K: "1 \<le> K" "nat K \<le> card (set source)"
    and si: "fst si \<longrightarrow> snd si < length source"
  shows "\<exists>s c. clustering_pass ext source K h eps si rd (nat K) = Some (Inr s)
           \<and> GonzalezClustering ext source K h eps si rd = Some (Inr c)
           \<and> m_indices c = m_indices s
           \<and> centers s ! 0 = (if fst si then snd si else rd mod length source)
           \<and> (\<forall>n. 1 \<le> n \<and> n \<le> nat K \<longrightarrow>
                 (\<exists>sn. clustering_pass ext source K h eps si rd n = Some (Inr sn)
                    \<and> (\<forall>j<n. centers sn ! j = centers s ! j
                           \<and> m_indices sn ! (centers s ! j) = j)))
           \<and> (\<forall>j<nat K. centers s ! j < length source \<and> m_indices c ! (centers s ! j) = j
                  \<and> 1 \<le> m_num_points c ! j \<and> m_centers c ! j \<noteq> None)"
proof -
  let ?N = "length source"
  let ?K = "nat K"
  let ?nc = "if fst si then snd si else rd mod ?N"
  have ne: "source \<noteq> []" using K by auto
  from pass_stages [OF mat K(1) ne si refl refl, where ext = ext and h = h and eps = eps and rd = rd]
  obtain s1 s c where r1: "reg source ?N ?K s1 1 [[Suc ?nc..<?N] @ [0..<?nc]]"
    and c1: "centers s1 ! 0 = ?nc"
    and pass: "\<And>n. clustering_pass ext source K h eps si rd n = for_i source [1..<n] s1"
    and f: "for_i source [1..<?K] s1 = Some (Inr s)"
    and g: "GonzalezClustering ext source K h eps si rd = Some (Inr c)"
    and c: "m_indices c = m_indices s"
      "m_num_points c = map (\<lambda>k. length (members (m_indices s) k)) [0..<?K]"
      "m_centers c = map (\<lambda>k. if members (m_indices s) k = [] then None
                             else Some (centroid source (members (m_indices s) k))) [0..<?K]"
    by blast
  have pos: "0 < m_radii t ! get_radius_idxmax n t"
    if "reg source ?N ?K t n ms" "n < ?K" for t n ms
  proof -
    have "n < card (set source)" using that(2) K(2) by simp
    from distinct_pos [OF that(1) mat this] show ?thesis .
  qed
  have upto: "\<exists>sn ms. for_i source [1..<n] s1 = Some (Inr sn) \<and> reg source ?N ?K sn n ms
                \<and> centers sn ! 0 = ?nc" if n: "1 \<le> n" "n \<le> ?K" for n
  proof (rule for_i_reg_upto [of source ?N ?K "\<lambda>cs n. cs ! 0 = ?nc", OF mat _ r1 c1 n])
    fix t m ms
    assume R: "reg source ?N ?K t m ms" and m: "m < ?K" and q: "centers t ! 0 = ?nc"
    have "0 < m" using R by (simp add: reg_def)
    then show "0 < m_radii t ! get_radius_idxmax m t
        \<and> (centers t)[m := far2c t ! get_radius_idxmax m t] ! 0 = ?nc"
      using pos [OF R m] q by simp
  qed
  have rest: "\<exists>s' ms'. for_i source [n..<?K] sn = Some (Inr s') \<and> reg source ?N ?K s' ?K ms'
                \<and> (n \<le> ?K \<and> take n (centers s') = take n (centers sn))"
    if R: "reg source ?N ?K sn n ms" and n: "n \<le> ?K" for sn n ms
  proof (rule for_i_reg_upto [of source ?N ?K
        "\<lambda>cs m. n \<le> m \<and> take n cs = take n (centers sn)", OF mat _ R _ n order_refl])
    show "n \<le> n \<and> take n (centers sn) = take n (centers sn)" by simp
  next
    fix t m ms'
    assume R': "reg source ?N ?K t m ms'" and m: "m < ?K"
      and q: "n \<le> m \<and> take n (centers t) = take n (centers sn)"
    show "0 < m_radii t ! get_radius_idxmax m t
        \<and> (n \<le> Suc m \<and> take n ((centers t)[m := far2c t ! get_radius_idxmax m t])
             = take n (centers sn))"
      using pos [OF R' m] q by simp
  qed
  have one: "1 \<le> ?K" using K by simp
  from upto [OF one order_refl] f obtain ms where R: "reg source ?N ?K s ?K ms"
    and c0: "centers s ! 0 = ?nc"
    by auto
  from R have len: "lengths_ok ?N ?K s" and rings: "rings_ok ?N s ?K ms"
    by (simp_all add: reg_def)
  have l: "length (centers s) = ?K" "length (m_indices s) = ?N"
    using len by (simp_all add: lengths_ok_def)
  have early: "\<exists>sn. clustering_pass ext source K h eps si rd n = Some (Inr sn)
       \<and> (\<forall>j<n. centers sn ! j = centers s ! j \<and> m_indices sn ! (centers s ! j) = j)"
    if n: "1 \<le> n" "n \<le> ?K" for n
  proof -
    from upto [OF n] obtain sn msn where fn: "for_i source [1..<n] s1 = Some (Inr sn)"
      and Rn: "reg source ?N ?K sn n msn"
      by blast
    from rest [OF Rn n(2)] obtain s' where f': "for_i source [n..<?K] sn = Some (Inr s')"
      and t: "take n (centers s') = take n (centers sn)"
      by blast
    have "[1..<n + (?K - n)] = [1..<n] @ [n..<n + (?K - n)]"
      using n(1) by (rule upt_add_eq_append)
    then have "[1..<?K] = [1..<n] @ [n..<?K]" using n(2) by simp
    then have "for_i source [1..<?K] s1 = for_i source [n..<?K] sn"
      using fn by (simp add: for_i_append del: upt_Suc)
    then have s': "s' = s" using f f' by simp
    from Rn have ringsn: "rings_ok ?N sn n msn" and lenn: "lengths_ok ?N ?K sn"
      by (simp_all add: reg_def)
    have "centers sn ! j = centers s ! j \<and> m_indices sn ! (centers s ! j) = j" if j: "j < n" for j
    proof -
      have "take n (centers s) ! j = take n (centers sn) ! j" using t s' by simp
      then have e: "centers sn ! j = centers s ! j" using j by simp
      show ?thesis using rings_ok_center(2) [OF ringsn j] e by simp
    qed
    then show ?thesis using pass fn by auto
  qed
  have seed: "centers s ! j < ?N \<and> m_indices c ! (centers s ! j) = j
              \<and> 1 \<le> m_num_points c ! j \<and> m_centers c ! j \<noteq> None" if j: "j < ?K" for j
  proof -
    note rc = rings_ok_center [OF rings j]
    have "centers s ! j \<in> set (members (m_indices s) j)"
      using rc l by (simp add: members_mem)
    then have ne: "members (m_indices s) j \<noteq> []" by auto
    then have "1 \<le> length (members (m_indices s) j)" by (simp add: Suc_le_eq)
    then show ?thesis using rc j ne by (simp add: c)
  qed
  have "clustering_pass ext source K h eps si rd ?K = Some (Inr s)" using pass f by simp
  then show ?thesis
    using g c(1) c0 early seed by blast
qed

theorem seeds_keep_their_clusters_witness:
  "\<exists>s c. clustering_pass example_externals [[0], [3], [10]] 2 1 (1/2) (True, 0) 0 2
         = Some (Inr s)
       \<and> GonzalezClustering example_externals [[0], [3], [10]] 2 1 (1/2) (True, 0) 0
         = Some (Inr c)
       \<and> m_indices c = m_indices s
       \<and> centers s ! 0 = 0
       \<and> (\<forall>n. 1 \<le> n \<and> n \<le> 2 \<longrightarrow>
             (\<exists>sn. clustering_pass example_externals [[0], [3], [10]] 2 1 (1/2) (True, 0) 0 n
                     = Some (Inr sn)
                \<and> (\<forall>j<n. centers sn ! j = centers s ! j
                       \<and> m_indices sn ! (centers s ! j) = j)))
       \<and> (\<forall>j<2. centers s ! j < 3 \<and> m_indices c ! (centers s ! j) = j
              \<and> 1 \<le> m_num_points c ! j \<and> m_centers c ! j \<noteq> None)"
  using seeds_keep_their_clusters [where source = "[[0], [3], [10]]" and K = 2
      and si = "(True, 0)" and ext = example_externals and h = 1 and eps = "1/2" and rd = 0]
  by (simp add: is_mat_def exact_input_def n_cols_def eval_nat_numeral)

text \<open>
  Claim C1 as stated: for every point set with \<open>N \<ge> K \<ge> 1\<close> and every explicit starting
  index the pruned pass and the brute-force clustering assign the points alike. For the
  points -1, 0, 1 and 10 on a line, \<open>K = 3\<close> and the starting index 1, the second centre
  is the point 10, and then the points -1 and 1 are equally far from their centre. The
  brute-force clustering takes the first of them as the third centre; the pruned pass
  takes the point 1, the member of the ring of cluster 0 that it met first. All numbers
  of this example are small integers.
\<close>

theorem pruning_tie_counterexample:
  "map_option (map_sum id m_indices)
     (GonzalezClustering example_externals [[-1], [0], [1], [10]] 3 1 (1/2) (True, 1) 0)
     = Some (Inr [0, 0, 2, 1])
   \<and> brute_force [[-1], [0], [1], [10]] 3 1 = [2, 0, 0, 1]
   \<and> exact_input [[-1], [0], [1], [10]]"
proof (intro conjI)
  show "map_option (map_sum id m_indices)
     (GonzalezClustering example_externals [[-1], [0], [1], [10]] 3 1 (1/2) (True, 1) 0)
     = Some (Inr [0, 0, 2, 1])"
    by (simp add: eval_defs)
  show "brute_force [[-1], [0], [1], [10]] 3 1 = [2, 0, 0, 1]"
    by (simp add: bf_eval_defs)
  show "exact_input [[-1], [0], [1], [10]]"
    by (simp add: exact_input_def n_cols_def)
qed

text \<open>
  Claim C1, amended: for every point set with \<open>N \<ge> K \<ge> 1\<close> whose squared distances are
  computed exactly and every explicit starting index, if in no iteration two points are
  both farthest from the chosen centres, the final assignment of the pruned pass equals
  the assignment of the brute-force farthest-point clustering.
\<close>

theorem pruned_equals_brute_force:
  assumes mat: "is_mat source" and ex: "exact_input source"
    and K: "1 \<le> K" "K \<le> int (length source)"
    and start: "start < length source" and nt: "no_ties source (nat K) start"
  shows "\<exists>c. GonzalezClustering ext source K h eps (True, start) rd = Some (Inr c)
           \<and> m_indices c = brute_force source (nat K) start"
proof -
  let ?N = "length source"
  let ?K = "nat K"
  let ?Q = "\<lambda>cs n. take n cs = bf_centers source (n - 1) [start]"
  have ne: "source \<noteq> []" using K by auto
  have si: "fst (True, start) \<longrightarrow> snd (True, start) < length source" using start by simp
  from gonzalez_stages [where ext = ext and h = h and eps = eps and rd = rd, OF mat K(1) ne si refl refl]
  obtain s1 s2 c where r1: "reg source ?N ?K s1 1 [[Suc start..<?N] @ [0..<start]]"
    and c1: "centers s1 ! 0 = start"
    and f: "for_i source [1..<?K] s1 = Some (Inr s2)"
    and g: "GonzalezClustering ext source K h eps (True, start) rd = Some (Inr c)"
    and c: "m_indices c = m_indices s2"
    by (simp del: upt_Suc) blast
  have pos: "0 < m_radii s ! get_radius_idxmax n s
             \<and> ?Q ((centers s)[n := far2c s ! get_radius_idxmax n s]) (Suc n)"
    if R: "reg source ?N ?K s n ms" and n: "n < ?K" and q: "?Q (centers s) n" for s n ms
  proof -
    from R have n0: "0 < n" and len: "lengths_ok ?N ?K s" by (simp_all add: reg_def)
    have nN: "n < ?N" using n K(2) by simp
    have "n - 1 \<in> set [0..<?K - 1]" using n n0 by simp
    then have "unique_farthest source (bf_centers source (n - 1) [start])"
      using nt unfolding no_ties_def list_all_iff by blast
    then have u: "unique_farthest source (take n (centers s))" using q by simp
    note np = noties_pos [OF R nN u]
    have "n < length (centers s)" using len n by (simp add: lengths_ok_def)
    then have "take (Suc n) ((centers s)[n := far2c s ! get_radius_idxmax n s])
        = take n (centers s) @ [far2c s ! get_radius_idxmax n s]"
      by (simp add: take_Suc_conv_app_nth)
    also have "\<dots> = bf_centers source (Suc (n - 1)) [start]"
      unfolding bf_centers_snoc using np(2) q by simp
    finally show ?thesis using np(1) n0 by simp
  qed
  have one: "1 \<le> ?K" using K by simp
  have "length (centers s1) = ?K" using r1 by (simp add: reg_def lengths_ok_def)
  then have q1: "?Q (centers s1) 1" using one c1 by (cases "centers s1") simp_all
  have "\<exists>s' ms'. for_i source [1..<?K] s1 = Some (Inr s') \<and> reg source ?N ?K s' ?K ms'
                  \<and> ?Q (centers s') ?K"
    by (rule for_i_reg [of source ?N ?K ?Q, OF mat _ r1 q1 one]) (rule pos, assumption+)
  then obtain s' ms where f': "for_i source [1..<?K] s1 = Some (Inr s')"
    and R: "reg source ?N ?K s' ?K ms" and q': "?Q (centers s') ?K"
    by blast
  have s': "s' = s2" using f f' by simp
  from R have len: "lengths_ok ?N ?K s2" by (simp add: reg_def s')
  have l: "length (centers s2) = ?K" "length (m_indices s2) = ?N"
    using len by (simp_all add: lengths_ok_def)
  have cs: "bf_centers source (?K - 1) [start] = take ?K (centers s2)" using q' by (simp add: s')
  have "brute_force source ?K start = m_indices s2"
    unfolding brute_force_def Let_def cs
    using reg_bf(1) [OF R [unfolded s']] l by (intro nth_equalityI) simp_all
  then show ?thesis using g c by simp
qed

theorem pruned_equals_brute_force_witness:
  "\<exists>c. GonzalezClustering example_externals [[0], [3], [10]] 2 1 (1/2) (True, 0) 0 = Some (Inr c)
       \<and> m_indices c = [0, 0, 1]"
  using pruned_equals_brute_force [where source = "[[0], [3], [10]]" and K = 2 and start = 0
      and ext = example_externals and h = 1 and eps = "1/2" and rd = 0]
  by (simp add: is_mat_def exact_input_def n_cols_def no_ties_def unique_farthest_def bf_eval_defs)

section \<open>Properties of the coefficient matrix\<close>

lemma map2_add_upt:
  "length ys = M \<Longrightarrow> map2 (+) (map g [0..<M]) ys = map (\<lambda>t. g t + ys ! t) [0..<M]"
  by (rule nth_equalityI) simp_all

lemma distance2_ddist: "sum_list (map (\<lambda>x. x\<^sup>2) (map2 (-) x y)) = ddist x y"
  unfolding ddist_def by (simp add: comp_def case_prod_unfold)

lemma accumulate_C_closed:
  fixes c :: clustering and ext :: externals and q :: "real list"
  defines "N \<equiv> n_rows (m_source c)" and "K \<equiv> length (m_centers c)"
    and "d \<equiv> n_cols (m_source c)"
  defines "M \<equiv> get_p_max_total ext d (m_p_max c)"
  defines "row \<equiv> \<lambda>js k. map (\<lambda>t. \<Sum>i\<leftarrow>filter (\<lambda>i. m_indices c ! i = k) js.
                                   C_term ext c q i (the (m_centers c ! k)) ! t) [0..<M]"
  assumes mat: "is_mat (m_source c)"
    and li: "length (m_indices c) = N" and lq: "length q = N"
    and idx: "\<forall>i<N. m_indices c ! i < K"
    and cen: "\<forall>i<N. \<exists>center. m_centers c ! (m_indices c ! i) = Some center \<and> length center = d"
    and mono: "\<forall>x. length x = d \<longrightarrow> length (compute_monomials ext x (m_p_max c)) = M"
  shows "\<forall>i\<in>set is. i < N \<Longrightarrow> C = map (\<lambda>k. Some (row js k)) [0..<K] \<Longrightarrow>
         accumulate_C ext c q (m_bandwidth c * m_bandwidth c) M is C
           = Inr (map (\<lambda>k. Some (row (js @ is) k)) [0..<K])"
proof (induction "is" arbitrary: js C)
  case Nil
  then show ?case by simp
next
  case (Cons i "is")
  let ?k = "m_indices c ! i"
  have iN: "i < N" using Cons.prems(1) by simp
  have kK: "?k < K" using idx iN by simp
  from cen iN obtain center where ce: "m_centers c ! ?k = Some center" "length center = d"
    by blast
  have lsrc: "length (m_source c) = N" by (simp add: N_def n_rows_def)
  have lrow: "length (m_source c ! i) = d"
    using is_mat_row [OF mat] iN lsrc by (simp add: d_def)
  let ?dx = "map2 (-) (m_source c ! i) center"
  let ?mono = "compute_monomials ext (map (\<lambda>x. x / m_bandwidth c) ?dx) (m_p_max c)"
  let ?f = "q ! i * exp (- sum_list (map (\<lambda>x. x\<^sup>2) ?dx) / (m_bandwidth c * m_bandwidth c))"
  have lm: "length ?mono = M" using mono lrow ce(2) by simp
  have tm: "C_term ext c q i center = map ((*) ?f) ?mono"
    by (simp only: C_term_def distance2_ddist power2_eq_square [of "m_bandwidth c"])
  have lC: "length C = K" using Cons.prems(2) by simp
  have Ck: "C ! ?k = Some (row js ?k)" using Cons.prems(2) kK by simp
  let ?C' = "C[?k := Some (map2 (+) (row js ?k) (map ((*) ?f) ?mono))]"
  have step: "accumulate_C ext c q (m_bandwidth c * m_bandwidth c) M (i # is) C
      = accumulate_C ext c q (m_bandwidth c * m_bandwidth c) M is ?C'"
    using iN kK li lq lsrc lC lm by (simp add: Let_def ce(1) Ck K_def)
  have C': "?C' = map (\<lambda>k. Some (row (js @ [i]) k)) [0..<K]"
  proof (rule nth_equalityI)
    show "length ?C' = length (map (\<lambda>k. Some (row (js @ [i]) k)) [0..<K])" using lC by simp
  next
    fix k assume "k < length ?C'"
    then have k: "k < K" using lC by simp
    show "?C' ! k = map (\<lambda>k. Some (row (js @ [i]) k)) [0..<K] ! k"
    proof (cases "k = ?k")
      case True
      have "map2 (+) (row js ?k) (map ((*) ?f) ?mono) = row (js @ [i]) ?k"
        unfolding row_def using lm
        by (subst map2_add_upt) (simp_all add: ce(1) tm)
      then show ?thesis using True k lC by simp
    next
      case False
      then have "row (js @ [i]) k = row js k" by (simp add: row_def)
      then show ?thesis using False k lC Cons.prems(2) by simp
    qed
  qed
  have "\<forall>i\<in>set is. i < N" using Cons.prems(1) by simp
  from Cons.IH [OF this C'] show ?case unfolding step by simp
qed

text \<open>An object that the constructor of \<^verbatim>\<open>GonzalezClustering\<close> returned is well formed
  in the sense of the theorem below.\<close>

lemma centroid_length: "length (centroid source mem) = n_cols source"
  by (simp add: centroid_def)

lemma constructed_clustering_well_formed:
  assumes mat: "is_mat source" and K: "1 \<le> K" and ne: "source \<noteq> []"
    and si: "fst si \<longrightarrow> snd si < length source"
    and g: "GonzalezClustering ext source K h eps si rd = Some (Inr c)"
  shows "m_source c = source \<and> length (m_indices c) = n_rows source
         \<and> (\<forall>i<n_rows source. m_indices c ! i < length (m_centers c))
         \<and> (\<forall>i<n_rows source. \<exists>center.
               m_centers c ! (m_indices c ! i) = Some center
               \<and> length center = n_cols source)"
proof (rule gonzalez_stages [where ext = ext and h = h and eps = eps and rd = rd,
      OF mat K ne si refl refl])
  fix s2 c'
  assume p2: "pass_ok source (length source) (nat K) s2 (nat K)"
    and g': "GonzalezClustering ext source K h eps si rd = Some (Inr c')"
    and c: "m_indices c' = m_indices s2" "m_source c' = source"
      "m_centers c' = map (\<lambda>k. if members (m_indices s2) k = [] then None
                             else Some (centroid source (members (m_indices s2) k))) [0..<nat K]"
  have cc: "c' = c" using g g' by simp
  note pf = pass_ok_facts [OF p2]
  have l: "length (m_indices s2) = length source" using pf(1) by (simp add: lengths_ok_def)
  have "\<exists>center. m_centers c' ! (m_indices c' ! i) = Some center
          \<and> length center = n_cols source" if i: "i < length source" for i
  proof -
    have k: "m_indices s2 ! i < nat K" using pf(2) i by simp
    have "i \<in> set (members (m_indices s2) (m_indices s2 ! i))"
      using i l by (simp add: members_mem)
    then have "members (m_indices s2) (m_indices s2 ! i) \<noteq> []" by auto
    then show ?thesis using k by (simp add: c centroid_length)
  qed
  then show ?thesis
    unfolding cc [symmetric] using pf(2) l by (simp add: c n_rows_def)
qed

text \<open>
  Claim C6: for every weight vector \<open>q\<close> of length \<open>N\<close>, \<^verbatim>\<open>compute_C\<close> returns a matrix
  of \<open>K\<close> rows and \<open>M\<close> columns, \<open>M\<close> being the number of monomials; row \<open>k\<close> is the sum
  over the points \<open>i\<close> assigned to cluster \<open>k\<close> of \<open>q i\<close> times the Gaussian of the squared
  distance to the centre over the squared bandwidth times the monomial vector of the
  offset divided by the bandwidth, multiplied element-wise by the constant series; the
  sum of a cluster without points is all zero. The object is well formed (every point
  is assigned to an existing cluster whose centre has the dimension of the points) and
  the collaborators return vectors of \<open>M\<close> entries.
\<close>

theorem compute_C_rows:
  assumes mat: "is_mat (m_source c)"
    and li: "length (m_indices c) = n_rows (m_source c)"
    and lq: "length q = n_rows (m_source c)"
    and idx: "\<forall>i<n_rows (m_source c). m_indices c ! i < length (m_centers c)"
    and cen: "\<forall>i<n_rows (m_source c). \<exists>center.
                m_centers c ! (m_indices c ! i) = Some center
                \<and> length center = n_cols (m_source c)"
    and mono: "\<forall>x. length x = n_cols (m_source c) \<longrightarrow>
                length (compute_monomials ext x (m_p_max c))
                  = get_p_max_total ext (n_cols (m_source c)) (m_p_max c)"
    and series: "length (compute_constant_series ext (n_cols (m_source c)) (m_p_max c))
                  = get_p_max_total ext (n_cols (m_source c)) (m_p_max c)"
  shows "compute_C ext c q = Inr (map Some (compute_C_spec ext c q))
         \<and> length (compute_C_spec ext c q) = length (m_centers c)
         \<and> (\<forall>k<length (m_centers c).
               length (compute_C_spec ext c q ! k)
                 = get_p_max_total ext (n_cols (m_source c)) (m_p_max c)
               \<and> (members (m_indices c) k = [] \<longrightarrow>
                    C_sum ext c q k
                      = replicate (get_p_max_total ext (n_cols (m_source c)) (m_p_max c)) 0))"
proof -
  let ?N = "n_rows (m_source c)"
  let ?K = "length (m_centers c)"
  let ?d = "n_cols (m_source c)"
  let ?M = "get_p_max_total ext ?d (m_p_max c)"
  let ?cs = "compute_constant_series ext ?d (m_p_max c)"
  let ?row = "\<lambda>js k. map (\<lambda>t. \<Sum>i\<leftarrow>filter (\<lambda>i. m_indices c ! i = k) js.
                                   C_term ext c q i (the (m_centers c ! k)) ! t) [0..<?M]"
  have C0: "replicate ?K (Some (replicate ?M 0)) = map (\<lambda>k. Some (?row [] k)) [0..<?K]"
    by (rule nth_equalityI) (simp_all add: map_replicate_const)
  have "\<forall>i\<in>set [0..<?N]. i < ?N" by simp
  from accumulate_C_closed [OF mat li lq idx cen mono this C0]
  have acc: "accumulate_C ext c q (m_bandwidth c * m_bandwidth c) ?M [0..<?N]
               (replicate ?K (Some (replicate ?M 0)))
             = Inr (map (\<lambda>k. Some (?row [0..<?N] k)) [0..<?K])"
    by simp
  have sum: "C_sum ext c q k = ?row [0..<?N] k" if k: "k < ?K" for k
  proof (cases "m_centers c ! k")
    case None
    have "filter (\<lambda>i. m_indices c ! i = k) [0..<?N] = []"
      using cen None by (auto simp: filter_empty_conv)
    then show ?thesis by (simp add: C_sum_def None map_replicate_const)
  next
    case (Some center)
    then show ?thesis by (simp add: C_sum_def members_def li)
  qed
  have lsum: "length (C_sum ext c q k) = ?M" if "k < ?K" for k
    using sum [OF that] by simp
  have spec: "map (map_option (\<lambda>row. map2 (*) row ?cs)) (map (\<lambda>k. Some (?row [0..<?N] k)) [0..<?K])
      = map Some (compute_C_spec ext c q)"
    unfolding compute_C_spec_def using sum by (intro nth_equalityI) simp_all
  have "compute_C ext c q = Inr (map Some (compute_C_spec ext c q))"
    unfolding compute_C_def Let_def acc using series spec by simp
  moreover have "length (compute_C_spec ext c q) = ?K" by (simp add: compute_C_spec_def)
  moreover have "length (compute_C_spec ext c q ! k) = ?M" if "k < ?K" for k
    using that lsum [OF that] series by (simp add: compute_C_spec_def)
  moreover have "C_sum ext c q k = replicate ?M 0" if "members (m_indices c) k = []" for k
    using that by (cases "m_centers c ! k") (simp_all add: C_sum_def map_replicate_const)
  ultimately show ?thesis by blast
qed

theorem compute_C_rows_witness:
  "compute_C example_externals
     \<lparr> m_source = [[0], [2]], m_indices = [0, 0], m_centers = [Some [1]],
       m_num_points = [2], m_radii = [2], m_rx = 2, m_bandwidth = 1, m_epsilon = 1/2,
       m_p_max = 1, m_constant_series = [1, 1] \<rparr> [1, 1]
     = Inr [Some [2 * exp (- 1), 2 * exp (- 1)]]"
  using compute_C_rows [where ext = example_externals and q = "[1, 1]"
      and c = "\<lparr> m_source = [[0], [2]], m_indices = [0, 0], m_centers = [Some [1]],
       m_num_points = [2], m_radii = [2], m_rx = 2, m_bandwidth = 1, m_epsilon = 1/2,
       m_p_max = 1, m_constant_series = [1, 1] \<rparr>"]
  by (simp add: is_mat_def n_cols_def n_rows_def example_externals_def compute_C_spec_def
      C_sum_def C_term_def members_def ddist_def numeral_2_eq_2 All_less_Suc upt_conv_Cons
      Let_def)

end
